theory Spec2Isabelle
  imports Main "HOL-Library.Word"
begin

section \<open>JavaScript strings and values\<close>

text \<open>
  A JavaScript string is a sequence of 16-bit UTF-16 code units. ASCII literals of the
  source are written through \<open>jstr\<close>.
\<close>

type_synonym code_unit = "16 word"
type_synonym js_string = "code_unit list"

definition jstr :: "string \<Rightarrow> js_string" where
  "jstr s = map (\<lambda>c. of_nat (of_char c)) s"

text \<open>The character classes the regular expressions of the source are built from.\<close>

definition is_upper :: "code_unit \<Rightarrow> bool" where
  "is_upper c = (0x41 \<le> c \<and> c \<le> 0x5A)"

definition is_lower :: "code_unit \<Rightarrow> bool" where
  "is_lower c = (0x61 \<le> c \<and> c \<le> 0x7A)"

definition is_digit :: "code_unit \<Rightarrow> bool" where
  "is_digit c = (0x30 \<le> c \<and> c \<le> 0x39)"

text \<open>\<^verbatim>\<open>[a-z0-9]\<close>\<close>

definition is_lower_digit :: "code_unit \<Rightarrow> bool" where
  "is_lower_digit c = (is_lower c \<or> is_digit c)"

text \<open>\<^verbatim>\<open>[A-Za-z0-9]\<close>\<close>

definition is_alnum :: "code_unit \<Rightarrow> bool" where
  "is_alnum c = (is_upper c \<or> is_lower c \<or> is_digit c)"

definition is_ascii :: "code_unit \<Rightarrow> bool" where
  "is_ascii c = (c < 0x80)"

text \<open>
  White space and line terminators of ECMAScript: what \<^verbatim>\<open>String.prototype.trim\<close>
  strips and what \<^verbatim>\<open>\s\<close> matches.
\<close>

definition is_space :: "code_unit \<Rightarrow> bool" where
  "is_space c = (c = 0x09 \<or> c = 0x0A \<or> c = 0x0B \<or> c = 0x0C \<or> c = 0x0D \<or> c = 0x20
     \<or> c = 0xA0 \<or> c = 0x1680 \<or> (0x2000 \<le> c \<and> c \<le> 0x200A) \<or> c = 0x2028 \<or> c = 0x2029
     \<or> c = 0x202F \<or> c = 0x205F \<or> c = 0x3000 \<or> c = 0xFEFF)"

definition js_trim :: "js_string \<Rightarrow> js_string" where
  "js_trim s = rev (dropWhile is_space (rev (dropWhile is_space s)))"

text \<open>\<^verbatim>\<open>Array.prototype.join\<close> on an array of strings.\<close>

fun js_join :: "js_string \<Rightarrow> js_string list \<Rightarrow> js_string" where
  "js_join sep [] = []"
| "js_join sep [w] = w"
| "js_join sep (w # v # ws) = w @ sep @ js_join sep (v # ws)"

subsection \<open>The runtime\<close>

text \<open>
  The source runs on a JavaScript engine whose Unicode tables are not part of the
  repository. Their behaviour on ASCII is fixed by the standard and written out below;
  beyond ASCII they are fields of the runtime:
  \<^item> \<open>unicode_props\<close>: \<^verbatim>\<open>new RegExp('\\p{L}', 'u')\<close> does not throw;
  \<^item> \<open>ln_tbl\<close>: the code points beyond ASCII of general category L or N;
  \<^item> \<open>lower_tbl\<close>, \<open>upper_tbl\<close>: \<^verbatim>\<open>toLowerCase\<close> and \<^verbatim>\<open>toUpperCase\<close> on a
    string that holds a code unit beyond ASCII;
  \<^item> \<open>has_normalize\<close>: \<^verbatim>\<open>String.prototype.normalize\<close> exists;
  \<^item> \<open>nfkd_tbl\<close>: \<^verbatim>\<open>normalize('NFKD')\<close> on a string that holds a code unit beyond
    ASCII.
\<close>

record runtime =
  unicode_props :: bool
  ln_tbl :: "nat \<Rightarrow> bool"
  lower_tbl :: "js_string \<Rightarrow> js_string"
  upper_tbl :: "js_string \<Rightarrow> js_string"
  has_normalize :: bool
  nfkd_tbl :: "js_string \<Rightarrow> js_string"

definition ascii_lower :: "code_unit \<Rightarrow> code_unit" where
  "ascii_lower c = (if is_upper c then c + 0x20 else c)"

definition ascii_upper :: "code_unit \<Rightarrow> code_unit" where
  "ascii_upper c = (if is_lower c then c - 0x20 else c)"

definition to_lower :: "runtime \<Rightarrow> js_string \<Rightarrow> js_string" where
  "to_lower rt s = (if list_all is_ascii s then map ascii_lower s else lower_tbl rt s)"

definition to_upper :: "runtime \<Rightarrow> js_string \<Rightarrow> js_string" where
  "to_upper rt s = (if list_all is_ascii s then map ascii_upper s else upper_tbl rt s)"

definition normalize_nfkd :: "runtime \<Rightarrow> js_string \<Rightarrow> js_string" where
  "normalize_nfkd rt s = (if list_all is_ascii s then s else nfkd_tbl rt s)"

subsection \<open>Values and string coercion\<close>

text \<open>
  What a call can throw: a \<^verbatim>\<open>TypeError\<close> with its message, or any other value.
\<close>

datatype js_error = TypeError string | OtherError

text \<open>
  A number is a double. The source never computes with one; it only tests it for
  truthiness and converts it to a string, so a nonzero number that is not NaN carries
  the text \<^verbatim>\<open>Number::toString\<close> gives it.
\<close>

datatype js_number = NaN | PosZero | NegZero | NonZero js_string

text \<open>
  An object (array, function, date, ...) carries the outcome of its conversion to a
  string, which runs the object's own \<^verbatim>\<open>Symbol.toPrimitive\<close>, \<^verbatim>\<open>toString\<close> or
  \<^verbatim>\<open>valueOf\<close>: a string, or whatever that code throws. \<^verbatim>\<open>Object.create(null)\<close> is
  \<open>JObject (Inl (TypeError ''Cannot convert object to primitive value''))\<close>.
\<close>

datatype js_value =
    JUndefined
  | JNull
  | JBoolean bool
  | JNumber js_number
  | JBigInt int
  | JString js_string
  | JSymbol "js_string option"
  | JObject "js_error + js_string"

fun nat_digits :: "nat \<Rightarrow> js_string" where
  "nat_digits n = (if n < 10 then [0x30 + of_nat n]
                   else nat_digits (n div 10) @ [0x30 + of_nat (n mod 10)])"

definition bigint_to_string :: "int \<Rightarrow> js_string" where
  "bigint_to_string i = (if i < 0 then 0x2D # nat_digits (nat (- i)) else nat_digits (nat i))"

definition number_to_string :: "js_number \<Rightarrow> js_string" where
  "number_to_string n = (case n of
       NaN \<Rightarrow> jstr ''NaN''
     | PosZero \<Rightarrow> jstr ''0''
     | NegZero \<Rightarrow> jstr ''0''
     | NonZero t \<Rightarrow> t)"

text \<open>\<^verbatim>\<open>String(value)\<close>: \<open>Inl\<close> is a thrown exception.\<close>

fun js_String :: "js_value \<Rightarrow> js_error + js_string" where
  "js_String JUndefined = Inr (jstr ''undefined'')"
| "js_String JNull = Inr (jstr ''null'')"
| "js_String (JBoolean b) = Inr (if b then jstr ''true'' else jstr ''false'')"
| "js_String (JNumber n) = Inr (number_to_string n)"
| "js_String (JBigInt i) = Inr (bigint_to_string i)"
| "js_String (JString s) = Inr s"
| "js_String (JSymbol d) =
     Inr (jstr ''Symbol('' @ (case d of None \<Rightarrow> [] | Some t \<Rightarrow> t) @ jstr '')'')"
| "js_String (JObject r) = r"

text \<open>\<^verbatim>\<open>value == null\<close>\<close>

fun is_nullish :: "js_value \<Rightarrow> bool" where
  "is_nullish JUndefined = True"
| "is_nullish JNull = True"
| "is_nullish _ = False"

text \<open>Truthiness, as \<^verbatim>\<open>input || ''\<close> tests it.\<close>

fun is_truthy :: "js_value \<Rightarrow> bool" where
  "is_truthy JUndefined = False"
| "is_truthy JNull = False"
| "is_truthy (JBoolean b) = b"
| "is_truthy (JNumber (NonZero t)) = True"
| "is_truthy (JNumber n) = False"
| "is_truthy (JBigInt i) = (i \<noteq> 0)"
| "is_truthy (JString s) = (s \<noteq> [])"
| "is_truthy (JSymbol d) = True"
| "is_truthy (JObject r) = True"

fun is_symbol :: "js_value \<Rightarrow> bool" where
  "is_symbol (JSymbol d) = True"
| "is_symbol _ = False"

section \<open>Regular expressions of the source\<close>

subsection \<open>The word regex and \<^verbatim>\<open>String.prototype.match\<close>\<close>

text \<open>
  The two regexes the functions of \<^verbatim>\<open>refined_prompt.js\<close> choose between:
  \<^verbatim>\<open>/[\p{L}\p{N}]+/gu\<close> and \<^verbatim>\<open>/[A-Za-z0-9]+/g\<close>.
\<close>

datatype word_regex = UnicodeWords | AsciiWords

definition wordRegex :: "runtime \<Rightarrow> word_regex" where
  "wordRegex rt = (if unicode_props rt then UnicodeWords else AsciiWords)"

definition is_high_surrogate :: "code_unit \<Rightarrow> bool" where
  "is_high_surrogate c = (0xD800 \<le> c \<and> c \<le> 0xDBFF)"

definition is_low_surrogate :: "code_unit \<Rightarrow> bool" where
  "is_low_surrogate c = (0xDC00 \<le> c \<and> c \<le> 0xDFFF)"

text \<open>
  Under the flag \<^verbatim>\<open>u\<close> a regex steps through code points: a high surrogate followed by
  a low surrogate is one position, any other code unit is a position of its own.
\<close>

fun code_points :: "js_string \<Rightarrow> js_string list" where
  "code_points [] = []"
| "code_points [c] = [[c]]"
| "code_points (c # d # cs) =
     (if is_high_surrogate c \<and> is_low_surrogate d then [c, d] # code_points cs
      else [c] # code_points (d # cs))"

text \<open>Without the flag it steps through code units.\<close>

definition code_units :: "js_string \<Rightarrow> js_string list" where
  "code_units s = map (\<lambda>c. [c]) s"

text \<open>
  \<^verbatim>\<open>[\p{L}\p{N}]\<close> at one position. The ASCII code points of category L or N are the
  letters and digits \<^verbatim>\<open>A-Z\<close>, \<^verbatim>\<open>a-z\<close>, \<^verbatim>\<open>0-9\<close>; the others come from the
  runtime's table.
\<close>

fun unicode_letter_or_number :: "runtime \<Rightarrow> js_string \<Rightarrow> bool" where
  "unicode_letter_or_number rt [c] = (if is_ascii c then is_alnum c else ln_tbl rt (unat c))"
| "unicode_letter_or_number rt [h, l] =
     ln_tbl rt (0x10000 + (unat h - 0xD800) * 0x400 + (unat l - 0xDC00))"
| "unicode_letter_or_number rt _ = False"

fun ascii_letter_or_digit :: "js_string \<Rightarrow> bool" where
  "ascii_letter_or_digit [c] = is_alnum c"
| "ascii_letter_or_digit _ = False"

fun regex_positions :: "word_regex \<Rightarrow> js_string \<Rightarrow> js_string list" where
  "regex_positions UnicodeWords s = code_points s"
| "regex_positions AsciiWords s = code_units s"

fun regex_class :: "runtime \<Rightarrow> word_regex \<Rightarrow> js_string \<Rightarrow> bool" where
  "regex_class rt UnicodeWords = unicode_letter_or_number rt"
| "regex_class rt AsciiWords = ascii_letter_or_digit"

text \<open>
  All matches of \<^verbatim>\<open>[class]+\<close> with the flag \<^verbatim>\<open>g\<close>: the search moves right until the
  class matches, the match takes as many positions as it can, and the search goes on
  after it.
\<close>

function match_runs :: "('a \<Rightarrow> bool) \<Rightarrow> 'a list \<Rightarrow> 'a list list" where
  "match_runs P [] = []"
| "match_runs P (x # xs) =
     (if P x then (x # takeWhile P xs) # match_runs P (dropWhile P xs)
      else match_runs P xs)"
  by pat_completeness auto
termination
  by (relation "measure (\<lambda>(P, xs). length xs)") (auto simp: length_dropWhile_le less_Suc_eq_le)

text \<open>The runs of positions \<^verbatim>\<open>wordRegex\<close> matches in \<open>str\<close>, one after the other.\<close>

definition word_runs :: "runtime \<Rightarrow> word_regex \<Rightarrow> js_string \<Rightarrow> js_string list list" where
  "word_runs rt re str = match_runs (regex_class rt re) (regex_positions re str)"

text \<open>\<^verbatim>\<open>str.match(wordRegex)\<close>: \<open>None\<close> is \<^verbatim>\<open>null\<close>, returned when nothing matches.\<close>

definition js_match :: "runtime \<Rightarrow> word_regex \<Rightarrow> js_string \<Rightarrow> js_string list option" where
  "js_match rt re str =
     (case map concat (word_runs rt re str) of
        [] \<Rightarrow> None
      | w # ws \<Rightarrow> Some (w # ws))"

subsection \<open>The replacements and splits of the older functions\<close>

text \<open>\<^verbatim>\<open>.replace(/([a-z0-9])([A-Z])/g, '$1 $2')\<close>\<close>

fun split_lower_upper :: "js_string \<Rightarrow> js_string" where
  "split_lower_upper [] = []"
| "split_lower_upper [c] = [c]"
| "split_lower_upper (a # b # cs) =
     (if is_lower_digit a \<and> is_upper b then a # 0x20 # b # split_lower_upper cs
      else a # split_lower_upper (b # cs))"

text \<open>
  \<^verbatim>\<open>([A-Z]+)([A-Z][a-z0-9])\<close> tried at the start of \<open>s\<close>: the first group takes the whole
  run of capitals and gives them back one at a time, down to one; after \<open>k\<close> capitals
  the second group needs a capital at \<open>k\<close> and a lower-case letter or digit at \<open>k + 1\<close>.
  The result is the length of the first group.
\<close>

primrec backtrack_capitals :: "js_string \<Rightarrow> nat \<Rightarrow> nat option" where
  "backtrack_capitals s 0 = None"
| "backtrack_capitals s (Suc k) =
     (if Suc (Suc k) < length s \<and> is_upper (s ! Suc k) \<and> is_lower_digit (s ! Suc (Suc k))
      then Some (Suc k) else backtrack_capitals s k)"

definition match_capitals :: "js_string \<Rightarrow> nat option" where
  "match_capitals s = backtrack_capitals s (length (takeWhile is_upper s))"

text \<open>\<^verbatim>\<open>.replace(/([A-Z]+)([A-Z][a-z0-9])/g, '$1 $2')\<close> of \<^verbatim>\<open>few_shot_prompt.js\<close>\<close>

fun split_capitals :: "js_string \<Rightarrow> js_string" where
  "split_capitals [] = []"
| "split_capitals (c # cs) =
     (case match_capitals (c # cs) of
        None \<Rightarrow> c # split_capitals cs
      | Some k \<Rightarrow> take k (c # cs) @ 0x20 # take 2 (drop k (c # cs))
                  @ split_capitals (drop (k + 2) (c # cs)))"

text \<open>
  \<^verbatim>\<open>.replace(/([A-Z]+)([A-Z][a-z0-9]+)/g, '$1 $2')\<close> of the kebab-case file: the second
  group goes on through the lower-case letters and digits that follow.
\<close>

fun split_capitals_word :: "js_string \<Rightarrow> js_string" where
  "split_capitals_word [] = []"
| "split_capitals_word (c # cs) =
     (case match_capitals (c # cs) of
        None \<Rightarrow> c # split_capitals_word cs
      | Some k \<Rightarrow>
          (let m = length (takeWhile is_lower_digit (drop (k + 1) (c # cs)))
           in take k (c # cs) @ 0x20 # take (1 + m) (drop k (c # cs))
              @ split_capitals_word (drop (k + 1 + m) (c # cs))))"

text \<open>
  \<^verbatim>\<open>.split(/[sep]+/)\<close>: the pieces between the runs of separators; a string that starts
  or ends with a separator gives an empty first or last piece, and the empty string
  gives one empty piece.
\<close>

function js_split_from :: "(code_unit \<Rightarrow> bool) \<Rightarrow> js_string \<Rightarrow> js_string \<Rightarrow> js_string list" where
  "js_split_from sep piece [] = [piece]"
| "js_split_from sep piece (c # cs) =
     (if sep c then piece # js_split_from sep [] (dropWhile sep cs)
      else js_split_from sep (piece @ [c]) cs)"
  by pat_completeness auto
termination
  by (relation "measure (\<lambda>(sep, piece, cs). length cs)")
     (auto simp: length_dropWhile_le less_Suc_eq_le)

definition js_split :: "(code_unit \<Rightarrow> bool) \<Rightarrow> js_string \<Rightarrow> js_string list" where
  "js_split sep s = js_split_from sep [] s"

text \<open>\<^verbatim>\<open>.filter(Boolean)\<close> on an array of strings drops the empty ones.\<close>

definition filter_Boolean :: "js_string list \<Rightarrow> js_string list" where
  "filter_Boolean ps = filter (\<lambda>p. p \<noteq> []) ps"

text \<open>\<^verbatim>\<open>.replace(/[^A-Za-z0-9]+/g, ' ')\<close>\<close>

function squash_separators :: "js_string \<Rightarrow> js_string" where
  "squash_separators [] = []"
| "squash_separators (c # cs) =
     (if is_alnum c then c # squash_separators cs
      else 0x20 # squash_separators (dropWhile (\<lambda>d. \<not> is_alnum d) cs))"
  by pat_completeness auto
termination
  by (relation "measure length") (auto simp: length_dropWhile_le less_Suc_eq_le)

text \<open>
  \<^verbatim>\<open>.replace(/[class]/g, '')\<close> for the class of the combining marks U+0300 to U+036F
\<close>

definition strip_combining :: "js_string \<Rightarrow> js_string" where
  "strip_combining s = filter (\<lambda>c. \<not> (0x300 \<le> c \<and> c \<le> 0x36F)) s"

section \<open>The case-conversion functions\<close>

subsection \<open>\<^verbatim>\<open>refined_prompt.js\<close>\<close>

text \<open>
  The file declares \<^verbatim>\<open>toKebabCase\<close> three times; a later function declaration
  replaces an earlier one, so the third (lines 141 to 160) is the function of that name.
\<close>

definition toKebabCase :: "runtime \<Rightarrow> js_value \<Rightarrow> js_error + js_string" where
  "toKebabCase rt v =
     (if is_nullish v then Inr []
      else case js_String v of
        Inl e \<Rightarrow> Inl e
      | Inr s \<Rightarrow>
          (let str = js_trim s in
           if str = [] then Inr []
           else case js_match rt (wordRegex rt) str of
             None \<Rightarrow> Inr []
           | Some words \<Rightarrow>
               if length words = 0 then Inr []
               else Inr (js_join (jstr ''-'') (map (\<lambda>w. to_lower rt w) words))))"

definition toCamelCase :: "runtime \<Rightarrow> js_value \<Rightarrow> js_error + js_string" where
  "toCamelCase rt v =
     (if is_nullish v then Inr []
      else case js_String v of
        Inl e \<Rightarrow> Inl e
      | Inr s \<Rightarrow>
          (let str = js_trim s in
           if str = [] then Inr []
           else case js_match rt (wordRegex rt) str of
             None \<Rightarrow> Inr []
           | Some [] \<Rightarrow> Inr []
           | Some (first # rest) \<Rightarrow>
               (let firstPart = to_lower rt first;
                    restParts = map (\<lambda>w. let lower = to_lower rt w
                                         in to_upper rt (take 1 lower) @ drop 1 lower) rest
                in Inr (firstPart @ js_join [] restParts))))"

definition toDotCase :: "runtime \<Rightarrow> js_value \<Rightarrow> js_error + js_string" where
  "toDotCase rt v =
     (if is_nullish v then Inr []
      else case js_String v of
        Inl e \<Rightarrow> Inl e
      | Inr s \<Rightarrow>
          (let str = js_trim s in
           if str = [] then Inr []
           else case js_match rt (wordRegex rt) str of
             None \<Rightarrow> Inr []
           | Some words \<Rightarrow>
               if length words = 0 then Inr []
               else Inr (js_join (jstr ''.'') (map (\<lambda>w. to_lower rt w) words))))"

subsection \<open>\<^verbatim>\<open>few_shot_prompt.js\<close>\<close>

text \<open>The array \<^verbatim>\<open>parts\<close> of \<^verbatim>\<open>toCamelCase\<close>, from the trimmed string \<^verbatim>\<open>s\<close>.\<close>

definition few_shot_parts :: "js_string \<Rightarrow> js_string list" where
  "few_shot_parts s =
     (let separated = split_capitals (split_lower_upper s)
      in filter_Boolean (js_split (\<lambda>c. \<not> is_alnum c) separated))"

definition few_shot_toCamelCase :: "runtime \<Rightarrow> js_value \<Rightarrow> js_error + js_string" where
  "few_shot_toCamelCase rt input =
     (case js_String (if is_truthy input then input else JString []) of
        Inl e \<Rightarrow> Inl e
      | Inr t \<Rightarrow>
          (let s = js_trim t in
           if s = [] then Inr []
           else let parts = few_shot_parts s in
             if length parts = 0 then Inr []
             else Inr (js_join []
                    (map (\<lambda>(i, part). let lower = to_lower rt part
                                        in if i = 0 then lower
                                           else to_upper rt (take 1 lower) @ drop 1 lower)
                         (enumerate 0 parts)))))"

subsection \<open>The kebab-case file \<^verbatim>\<open>unnamed/part_000\<close> (\<^verbatim>\<open>chain_prompt.js\<close> by its own comment)\<close>

text \<open>The tokens \<^verbatim>\<open>toKebabCas\<close> lower-cases and joins, from the string \<^verbatim>\<open>s\<close>.\<close>

definition kebab_tokens :: "runtime \<Rightarrow> js_string \<Rightarrow> js_string list" where
  "kebab_tokens rt s =
     (let normalized = (if has_normalize rt then strip_combining (normalize_nfkd rt s) else s);
          spaced = split_capitals_word (split_lower_upper normalized)
      in filter_Boolean (js_split is_space (js_trim (squash_separators spaced))))"

definition toKebabCas :: "runtime \<Rightarrow> js_value \<Rightarrow> js_error + js_string" where
  "toKebabCas rt input =
     (if is_nullish input then Inr []
      else case js_String input of
        Inl e \<Rightarrow> Inl e
      | Inr s \<Rightarrow> Inr (js_join (jstr ''-'') (map (\<lambda>token. to_lower rt token) (kebab_tokens rt s))))"

text \<open>
  The exported \<^verbatim>\<open>toKebabCase\<close> of that file. Its result comes with what it writes
  through \<^verbatim>\<open>console.error\<close>.
\<close>

definition chain_toKebabCase :: "runtime \<Rightarrow> js_value \<Rightarrow> (js_error + js_string) \<times> string list" where
  "chain_toKebabCase rt input =
     (if is_symbol input
      then (Inl (TypeError ''toKebabCase: Symbol cannot be converted to a string''), [])
      else case toKebabCas rt input of
        Inr r \<Rightarrow> (Inr r, [])
      | Inl (TypeError m) \<Rightarrow> (Inl (TypeError m), [])
      | Inl OtherError \<Rightarrow> (Inr [], [''toKebabCase: unexpected error:'']))"

section \<open>The comments routes\<close>

text \<open>
  \<^verbatim>\<open>backend/routes/api/comments.js\<close> serves the comments kept by the Mongoose model
  \<^verbatim>\<open>Comment\<close>. The collection is a map from ids to documents. Mongoose is
  not part of the repository; of it the handlers use
  \<^item> \<^verbatim>\<open>mongoose.Types.ObjectId.isValid\<close>, a field of the environment, and
  \<^item> \<^verbatim>\<open>Comment.find()\<close> and \<^verbatim>\<open>Comment.findByIdAndDelete(id)\<close>, which reject with
    an error when the database fails (\<open>db_failure\<close> holds the error) and otherwise
    return all documents, and remove and return the document with that id (\<^verbatim>\<open>null\<close>
    when there is none).
\<close>

type_synonym comment_id = string

record comment =
  comment_body :: string
  comment_author :: string

type_synonym comment_store = "comment_id \<rightharpoonup> comment"

record mongoose =
  isValid :: "string \<Rightarrow> bool"
  db_failure :: "string option"

datatype response_body =
    ErrorBody string
  | CommentsBody comment_store
  | DeletedBody string comment

record response =
  status :: nat
  body :: response_body

text \<open>
  What a request leaves behind: the response sent, the collection afterwards, and the
  lines written through \<^verbatim>\<open>console.error\<close>.
\<close>

record outcome =
  sent :: response
  store_after :: comment_store
  logged :: "string list"

definition Comment_find :: "mongoose \<Rightarrow> comment_store \<Rightarrow> string + comment_store" where
  "Comment_find m store = (case db_failure m of None \<Rightarrow> Inr store | Some err \<Rightarrow> Inl err)"

definition Comment_findByIdAndDelete ::
  "mongoose \<Rightarrow> comment_id \<Rightarrow> comment_store \<Rightarrow> (string + comment option) \<times> comment_store" where
  "Comment_findByIdAndDelete m i store =
     (case db_failure m of
        Some err \<Rightarrow> (Inl err, store)
      | None \<Rightarrow>
          (case store i of
             None \<Rightarrow> (Inr None, store)
           | Some c \<Rightarrow> (Inr (Some c), store(i := None))))"

text \<open>\<^verbatim>\<open>router.get("/")\<close>\<close>

definition get_comments :: "mongoose \<Rightarrow> comment_store \<Rightarrow> outcome" where
  "get_comments m store =
     (case Comment_find m store of
        Inr comments \<Rightarrow>
          \<lparr>sent = \<lparr>status = 200, body = CommentsBody comments\<rparr>, store_after = store, logged = []\<rparr>
      | Inl err \<Rightarrow>
          \<lparr>sent = \<lparr>status = 500, body = ErrorBody ''Failed to fetch comments''\<rparr>,
           store_after = store, logged = []\<rparr>)"

text \<open>\<^verbatim>\<open>router.delete("/:id")\<close>, with the path parameter \<^verbatim>\<open>id\<close>.\<close>

definition delete_comment :: "mongoose \<Rightarrow> string \<Rightarrow> comment_store \<Rightarrow> outcome" where
  "delete_comment m i store =
     (if \<not> isValid m i
      then \<lparr>sent = \<lparr>status = 400, body = ErrorBody ''Invalid comment id''\<rparr>,
            store_after = store, logged = []\<rparr>
      else case Comment_findByIdAndDelete m i store of
        (Inl err, store') \<Rightarrow>
          \<lparr>sent = \<lparr>status = 500, body = ErrorBody ''Failed to delete comment''\<rparr>,
           store_after = store', logged = [err]\<rparr>
      | (Inr None, store') \<Rightarrow>
          \<lparr>sent = \<lparr>status = 404, body = ErrorBody ''Comment not found''\<rparr>,
           store_after = store', logged = []\<rparr>
      | (Inr (Some deletedComment), store') \<Rightarrow>
          \<lparr>sent = \<lparr>status = 200,
                   body = DeletedBody ''Comment deleted successfully'' deletedComment\<rparr>,
           store_after = store', logged = []\<rparr>)"

section \<open>Example runtimes\<close>

text \<open>
  A runtime with Unicode property escapes whose tables hold one entry of the Unicode
  Character Database: U+0130 (Latin capital letter I with dot above) is a letter and
  lower-cases to U+0069 U+0307, and U+0307 (combining dot above) is a mark, neither
  letter nor number. The examples that use it hold ASCII and these two code points only.
\<close>

definition sample_runtime :: runtime where
  "sample_runtime =
     \<lparr>unicode_props = True,
      ln_tbl = (\<lambda>cp. cp = 0x130),
      lower_tbl = (\<lambda>s. if s = [0x130] then [0x69, 0x307] else s),
      upper_tbl = (\<lambda>s. s),
      has_normalize = True,
      nfkd_tbl = (\<lambda>s. s)\<rparr>"

text \<open>The same runtime without Unicode property escapes: the word regex falls back.\<close>

definition legacy_runtime :: runtime where
  "legacy_runtime = sample_runtime\<lparr>unicode_props := False\<rparr>"

text \<open>
  An environment for the comments routes in which the valid ids are the strings of 24
  hexadecimal digits and the database does not fail.
\<close>

definition is_hex_digit :: "char \<Rightarrow> bool" where
  "is_hex_digit c = (c \<in> set ''0123456789abcdefABCDEF'')"

definition sample_mongoose :: mongoose where
  "sample_mongoose =
     \<lparr>isValid = (\<lambda>s. length s = 24 \<and> list_all is_hex_digit s), db_failure = None\<rparr>"

definition sample_id :: comment_id where
  "sample_id = ''64b7f0c2a1d3e4f5a6b7c8d9''"

definition sample_store :: comment_store where
  "sample_store = [sample_id \<mapsto> \<lparr>comment_body = ''first'', comment_author = ''ann''\<rparr>]"

section \<open>The notions of the specification\<close>

text \<open>
  The specification's words: \<open>maximal_runs P xs ws\<close> says that \<open>ws\<close> are the maximal
  runs of positions in the class \<open>P\<close> within \<open>xs\<close>, in their order. The sequence is a
  gap without any position in \<open>P\<close>, then a non-empty run inside \<open>P\<close> that the next
  position, if there is one, does not continue, then the rest in the same way.
\<close>

inductive maximal_runs :: "('a \<Rightarrow> bool) \<Rightarrow> 'a list \<Rightarrow> 'a list list \<Rightarrow> bool" for P where
  no_run: "list_all (\<lambda>x. \<not> P x) gap \<Longrightarrow> maximal_runs P gap []"
| next_run: "list_all (\<lambda>x. \<not> P x) gap \<Longrightarrow> w \<noteq> [] \<Longrightarrow> list_all P w \<Longrightarrow>
     rest = [] \<or> \<not> P (hd rest) \<Longrightarrow> maximal_runs P rest ws \<Longrightarrow>
     maximal_runs P (gap @ w @ rest) (w # ws)"

text \<open>
  A joined output is clean for the separator \<open>sep\<close> when no two separators are adjacent
  and it neither begins nor ends with one.
\<close>

fun has_adjacent :: "code_unit \<Rightarrow> js_string \<Rightarrow> bool" where
  "has_adjacent sep (a # b # cs) = ((a = sep \<and> b = sep) \<or> has_adjacent sep (b # cs))"
| "has_adjacent sep _ = False"

definition separator_clean :: "code_unit \<Rightarrow> js_string \<Rightarrow> bool" where
  "separator_clean sep out =
     (\<not> has_adjacent sep out \<and> (out = [] \<or> (hd out \<noteq> sep \<and> last out \<noteq> sep)))"

text \<open>
  The case boundaries at which the older functions cut a word: a lower-case letter or
  digit directly before a capital, and two capitals directly before a lower-case letter
  or digit.
\<close>

fun has_lower_upper :: "js_string \<Rightarrow> bool" where
  "has_lower_upper (a # b # cs) = ((is_lower_digit a \<and> is_upper b) \<or> has_lower_upper (b # cs))"
| "has_lower_upper _ = False"

fun has_capitals_lower :: "js_string \<Rightarrow> bool" where
  "has_capitals_lower (a # b # c # cs) =
     ((is_upper a \<and> is_upper b \<and> is_lower_digit c) \<or> has_capitals_lower (b # c # cs))"
| "has_capitals_lower _ = False"

definition has_case_boundary :: "js_string \<Rightarrow> bool" where
  "has_case_boundary s = (has_lower_upper s \<or> has_capitals_lower s)"

text \<open>
  The string with a space put at every case boundary: between a lower-case letter or
  digit and a capital directly after it, and between two capitals that a lower-case
  letter or digit directly follows.
\<close>

fun cut_case_boundaries :: "js_string \<Rightarrow> js_string" where
  "cut_case_boundaries (a # b # cs) =
     (if (is_lower_digit a \<and> is_upper b)
         \<or> (is_upper a \<and> is_upper b \<and> cs \<noteq> [] \<and> is_lower_digit (hd cs))
      then a # 0x20 # cut_case_boundaries (b # cs)
      else a # cut_case_boundaries (b # cs))"
| "cut_case_boundaries s = s"

text \<open>The second kind of boundary alone.\<close>

fun cut_capitals :: "js_string \<Rightarrow> js_string" where
  "cut_capitals (a # b # cs) =
     (if is_upper a \<and> is_upper b \<and> cs \<noteq> [] \<and> is_lower_digit (hd cs)
      then a # 0x20 # cut_capitals (b # cs)
      else a # cut_capitals (b # cs))"
| "cut_capitals s = s"

text \<open>
  What the runtime's tables are assumed to do where a claim depends on them:
  lower-casing neither empties a string nor brings in the separator, and NFKD turns
  white space into nothing that the ASCII class of letters and digits matches.
\<close>

definition lower_keeps_free :: "runtime \<Rightarrow> code_unit \<Rightarrow> bool" where
  "lower_keeps_free rt sep =
     (\<forall>w. w \<noteq> [] \<and> sep \<notin> set w \<longrightarrow> lower_tbl rt w \<noteq> [] \<and> sep \<notin> set (lower_tbl rt w))"

definition nfkd_keeps_blank :: "runtime \<Rightarrow> bool" where
  "nfkd_keeps_blank rt =
     (\<forall>s. list_all is_space s \<longrightarrow> list_all (\<lambda>c. \<not> is_alnum c) (nfkd_tbl rt s))"

section \<open>The comments routes: validation and effect on the collection\<close>

lemma sample_id_valid: "isValid sample_mongoose sample_id"
  by (simp add: sample_mongoose_def sample_id_def is_hex_digit_def)

lemma sample_delete:
  "delete_comment sample_mongoose sample_id sample_store
     = \<lparr>sent = \<lparr>status = 200, body = DeletedBody ''Comment deleted successfully''
                \<lparr>comment_body = ''first'', comment_author = ''ann''\<rparr>\<rparr>,
        store_after = Map.empty, logged = []\<rparr>"
  using sample_id_valid
  by (simp add: delete_comment_def Comment_findByIdAndDelete_def sample_store_def
      sample_mongoose_def)

lemma sample_delete_again:
  "delete_comment sample_mongoose sample_id Map.empty
     = \<lparr>sent = \<lparr>status = 404, body = ErrorBody ''Comment not found''\<rparr>,
        store_after = Map.empty, logged = []\<rparr>"
  using sample_id_valid
  by (simp add: delete_comment_def Comment_findByIdAndDelete_def sample_mongoose_def)

text \<open>
  Claim C10: a \<^verbatim>\<open>DELETE /:id\<close> request whose id is not a valid ObjectId is answered
  with status 400 and the body \<^verbatim>\<open>{ error: "Invalid comment id" }\<close>, and the collection
  of comments is left as it was.
\<close>

theorem delete_invalid_id_rejected:
  "\<not> isValid m i \<Longrightarrow>
   delete_comment m i store
     = \<lparr>sent = \<lparr>status = 400, body = ErrorBody ''Invalid comment id''\<rparr>,
        store_after = store, logged = []\<rparr>"
  by (simp add: delete_comment_def)

text \<open>Claim C10 at the id \<^verbatim>\<open>42\<close>, which is not a string of 24 hexadecimal digits.\<close>

theorem delete_invalid_id_rejected_witness:
  "\<not> isValid sample_mongoose ''42'' \<and>
   delete_comment sample_mongoose ''42'' sample_store
     = \<lparr>sent = \<lparr>status = 400, body = ErrorBody ''Invalid comment id''\<rparr>,
        store_after = sample_store, logged = []\<rparr>"
proof -
  have invalid: "\<not> isValid sample_mongoose ''42''"
    by (simp add: sample_mongoose_def)
  from delete_invalid_id_rejected [OF invalid, of sample_store] invalid show ?thesis
    by simp
qed

text \<open>
  Claim C3 says that no operation of the repository changes observable state and that
  equal inputs give equal results. Deleting a stored comment changes the collection, and
  the same request sent again is answered differently (200, then 404).
\<close>

theorem delete_changes_store_counterexample:
  "store_after (delete_comment sample_mongoose sample_id sample_store) \<noteq> sample_store
   \<and> sent (delete_comment sample_mongoose sample_id
            (store_after (delete_comment sample_mongoose sample_id sample_store)))
       \<noteq> sent (delete_comment sample_mongoose sample_id sample_store)"
proof -
  have "sample_store sample_id \<noteq> None"
    by (simp add: sample_store_def)
  then have "sample_store \<noteq> Map.empty"
    by metis
  then show ?thesis
    by (simp add: sample_delete sample_delete_again)
qed

text \<open>
  Claim C3 as amended: the state of the repository is the collection of comments and the
  console. \<^verbatim>\<open>GET /\<close> leaves both as they are; \<^verbatim>\<open>DELETE /:id\<close> removes the comment
  with that id when the id is valid, the database does not fail and the comment exists,
  and leaves the collection as it is otherwise, and it writes the error to the console
  when the id is valid and the database fails; of the conversion functions only the
  exported \<^verbatim>\<open>toKebabCase\<close> of the kebab-case file writes to the console, one line, when
  the string coercion of its input throws something other than a \<^verbatim>\<open>TypeError\<close>.
\<close>

theorem routes_store_effect:
  "store_after (get_comments m store) = store \<and> logged (get_comments m store) = []
   \<and> store_after (delete_comment m i store)
       = (if isValid m i \<and> db_failure m = None \<and> store i \<noteq> None then store(i := None)
          else store)
   \<and> logged (delete_comment m i store)
       = (case db_failure m of Some err \<Rightarrow> if isValid m i then [err] else [] | None \<Rightarrow> [])
   \<and> snd (chain_toKebabCase rt v)
       = (if \<not> is_symbol v \<and> \<not> is_nullish v \<and> js_String v = Inl OtherError
          then [''toKebabCase: unexpected error:''] else [])"
proof -
  have g: "store_after (get_comments m store) = store \<and> logged (get_comments m store) = []"
    by (simp add: get_comments_def Comment_find_def split: option.splits)
  have d: "store_after (delete_comment m i store)
       = (if isValid m i \<and> db_failure m = None \<and> store i \<noteq> None then store(i := None)
          else store)"
    by (auto simp: delete_comment_def Comment_findByIdAndDelete_def split: option.splits)
  have l: "logged (delete_comment m i store)
       = (case db_failure m of Some err \<Rightarrow> if isValid m i then [err] else [] | None \<Rightarrow> [])"
    by (auto simp: delete_comment_def Comment_findByIdAndDelete_def split: option.splits)
  have k: "snd (chain_toKebabCase rt v)
       = (if \<not> is_symbol v \<and> \<not> is_nullish v \<and> js_String v = Inl OtherError
          then [''toKebabCase: unexpected error:''] else [])"
    by (auto simp: chain_toKebabCase_def toKebabCas_def split: sum.splits js_error.splits)
  from g d l k show ?thesis by blast
qed

text \<open>
  Claim C3 as amended, at the stored comment and at an object whose \<^verbatim>\<open>toString\<close>
  throws a value that is not a \<^verbatim>\<open>TypeError\<close>.
\<close>

theorem routes_store_effect_witness:
  "store_after (get_comments sample_mongoose sample_store) = sample_store
   \<and> store_after (delete_comment sample_mongoose sample_id sample_store)
       = sample_store(sample_id := None)
   \<and> logged (delete_comment sample_mongoose sample_id sample_store) = []
   \<and> snd (chain_toKebabCase legacy_runtime (JObject (Inl OtherError)))
       = [''toKebabCase: unexpected error:'']"
  using routes_store_effect [of sample_mongoose sample_store sample_id legacy_runtime
      "JObject (Inl OtherError)"] sample_id_valid
  by (simp add: sample_store_def sample_mongoose_def)

section \<open>String coercion, exceptions and blank input\<close>

lemma space_not_alnum: "is_space c \<Longrightarrow> \<not> is_alnum c"
  by (auto simp: is_space_def is_alnum_def is_upper_def is_lower_def is_digit_def word_le_nat_alt)

lemma dropWhile_all_iff: "(\<forall>x \<in> set (dropWhile P xs). P x) \<longleftrightarrow> (\<forall>x \<in> set xs. P x)"
  by (induction xs) auto

lemma js_trim_empty_iff: "js_trim s = [] \<longleftrightarrow> list_all is_space s"
  by (simp add: js_trim_def dropWhile_eq_Nil_conv list_all_iff dropWhile_all_iff)

lemma nullish_String: "is_nullish v \<Longrightarrow> \<exists>s. js_String v = Inr s"
  by (cases v) simp_all

lemma falsy_String: "\<not> is_truthy v \<Longrightarrow> \<exists>s. js_String v = Inr s"
  by (cases v) simp_all

lemma toKebabCase_throws: "toKebabCase rt v = Inl e \<longleftrightarrow> js_String v = Inl e"
  using nullish_String [of v]
  by (auto simp: toKebabCase_def Let_def split: sum.splits option.splits)

lemma toDotCase_throws: "toDotCase rt v = Inl e \<longleftrightarrow> js_String v = Inl e"
  using nullish_String [of v]
  by (auto simp: toDotCase_def Let_def split: sum.splits option.splits)

lemma toCamelCase_throws: "toCamelCase rt v = Inl e \<longleftrightarrow> js_String v = Inl e"
  using nullish_String [of v]
  by (auto simp: toCamelCase_def Let_def split: sum.splits option.splits list.splits)

lemma few_shot_toCamelCase_throws: "few_shot_toCamelCase rt v = Inl e \<longleftrightarrow> js_String v = Inl e"
  using falsy_String [of v]
  by (auto simp: few_shot_toCamelCase_def Let_def split: sum.splits)

lemma toKebabCas_throws: "toKebabCas rt v = Inl e \<longleftrightarrow> js_String v = Inl e"
  using nullish_String [of v]
  by (auto simp: toKebabCas_def split: sum.splits)

lemma symbol_String: "is_symbol v \<Longrightarrow> \<exists>s. js_String v = Inr s"
  by (cases v) simp_all

lemma chain_toKebabCase_throws:
  "fst (chain_toKebabCase rt v) = Inl e \<longleftrightarrow>
     (is_symbol v \<and> e = TypeError ''toKebabCase: Symbol cannot be converted to a string'')
     \<or> (\<exists>m. e = TypeError m \<and> js_String v = Inl e)"
proof (cases "is_symbol v")
  case True
  with symbol_String [of v] show ?thesis
    by (auto simp: chain_toKebabCase_def)
next
  case False
  show ?thesis
  proof (cases "toKebabCas rt v")
    case (Inr r)
    with False toKebabCas_throws [of rt v e] show ?thesis
      by (auto simp: chain_toKebabCase_def)
  next
    case (Inl x)
    with False toKebabCas_throws [of rt v x] show ?thesis
      by (cases x) (auto simp: chain_toKebabCase_def)
  qed
qed

lemma lower_digit_alnum: "is_lower_digit c \<Longrightarrow> is_alnum c"
  by (auto simp: is_lower_digit_def is_alnum_def)

lemma upper_alnum: "is_upper c \<Longrightarrow> is_alnum c"
  by (simp add: is_alnum_def)

lemma split_lower_upper_no_alnum:
  "list_all (\<lambda>c. \<not> is_alnum c) s \<Longrightarrow> split_lower_upper s = s"
  by (induction s rule: split_lower_upper.induct) (auto dest: lower_digit_alnum)

lemma match_capitals_not_upper: "\<not> is_upper c \<Longrightarrow> match_capitals (c # cs) = None"
  by (simp add: match_capitals_def)

lemma split_capitals_word_no_alnum:
  "list_all (\<lambda>c. \<not> is_alnum c) s \<Longrightarrow> split_capitals_word s = s"
proof (induction s)
  case Nil
  show ?case by simp
next
  case (Cons c cs)
  then have "\<not> is_upper c"
    using upper_alnum by auto
  with Cons show ?case
    by (simp add: match_capitals_not_upper)
qed

lemma squash_separators_no_alnum:
  "list_all (\<lambda>c. \<not> is_alnum c) s \<Longrightarrow> squash_separators s = (if s = [] then [] else [0x20])"
proof (cases s)
  case Nil
  then show ?thesis by simp
next
  case (Cons c cs)
  assume "list_all (\<lambda>c. \<not> is_alnum c) s"
  with Cons have c: "\<not> is_alnum c" and dw: "dropWhile (\<lambda>d. \<not> is_alnum d) cs = []"
    by (simp_all add: list_all_iff)
  show ?thesis by (simp add: Cons c dw)
qed

lemma kebab_tokens_blank:
  assumes blank: "list_all is_space s" and tbl: "nfkd_keeps_blank rt"
  shows "kebab_tokens rt s = []"
proof -
  define normalized where
    "normalized = (if has_normalize rt then strip_combining (normalize_nfkd rt s) else s)"
  have s_no: "list_all (\<lambda>c. \<not> is_alnum c) s"
    using blank by (auto simp: list_all_iff dest: space_not_alnum)
  have "list_all (\<lambda>c. \<not> is_alnum c) (normalize_nfkd rt s)"
    using s_no blank tbl by (simp add: normalize_nfkd_def nfkd_keeps_blank_def)
  then have "list_all (\<lambda>c. \<not> is_alnum c) (strip_combining (normalize_nfkd rt s))"
    by (simp add: strip_combining_def list_all_iff)
  with s_no have no: "list_all (\<lambda>c. \<not> is_alnum c) normalized"
    by (simp add: normalized_def)
  have "js_trim (squash_separators (split_capitals_word (split_lower_upper normalized))) = []"
    using no
    by (simp add: split_lower_upper_no_alnum split_capitals_word_no_alnum
        squash_separators_no_alnum js_trim_empty_iff is_space_def)
  then show ?thesis
    by (simp add: kebab_tokens_def normalized_def js_split_def filter_Boolean_def)
qed

lemma symbol_String_not_blank: "is_symbol v \<Longrightarrow> js_String v = Inr s \<Longrightarrow> js_trim s \<noteq> []"
  by (cases v) (auto simp: js_trim_empty_iff jstr_def is_space_def)

text \<open>
  Claim C4: for \<^verbatim>\<open>null\<close>, \<^verbatim>\<open>undefined\<close> and every input whose string form is empty
  after trimming, each conversion function returns the empty string. The function of the
  kebab-case file normalises before it looks for words, so for it the runtime's NFKD is
  taken to turn white space into a string without ASCII letters and digits.
\<close>

theorem empty_input_gives_empty:
  assumes "is_nullish v \<or> (\<exists>s. js_String v = Inr s \<and> js_trim s = [])"
  shows "toCamelCase rt v = Inr [] \<and> toKebabCase rt v = Inr [] \<and> toDotCase rt v = Inr []
         \<and> few_shot_toCamelCase rt v = Inr []
         \<and> (nfkd_keeps_blank rt \<longrightarrow> chain_toKebabCase rt v = (Inr [], []))"
proof -
  have refined: "toCamelCase rt v = Inr [] \<and> toKebabCase rt v = Inr [] \<and> toDotCase rt v = Inr []"
    using assms by (auto simp: toCamelCase_def toKebabCase_def toDotCase_def)
  have few: "few_shot_toCamelCase rt v = Inr []"
  proof (cases "is_truthy v")
    case True
    then have "\<not> is_nullish v" by (cases v) simp_all
    with assms True show ?thesis
      by (auto simp: few_shot_toCamelCase_def)
  next
    case False
    then show ?thesis
      by (simp add: few_shot_toCamelCase_def js_trim_def)
  qed
  have chain: "chain_toKebabCase rt v = (Inr [], [])" if tbl: "nfkd_keeps_blank rt"
  proof (cases "is_nullish v")
    case True
    then have "\<not> is_symbol v" by (cases v) simp_all
    with True show ?thesis
      by (simp add: chain_toKebabCase_def toKebabCas_def)
  next
    case False
    with assms obtain s where s: "js_String v = Inr s" "js_trim s = []"
      by blast
    then have sym: "\<not> is_symbol v"
      using symbol_String_not_blank by blast
    from s have "kebab_tokens rt s = []"
      using tbl by (simp add: kebab_tokens_blank js_trim_empty_iff)
    with s sym False show ?thesis
      by (simp add: chain_toKebabCase_def toKebabCas_def)
  qed
  from refined few chain show ?thesis by blast
qed

lemma sample_nfkd_keeps_blank: "nfkd_keeps_blank sample_runtime"
  by (auto simp: nfkd_keeps_blank_def sample_runtime_def list_all_iff dest: space_not_alnum)

text \<open>Claim C4 at the string of one space.\<close>

theorem empty_input_gives_empty_witness:
  "js_String (JString (jstr '' '')) = Inr (jstr '' '') \<and> js_trim (jstr '' '') = []
   \<and> nfkd_keeps_blank sample_runtime
   \<and> toCamelCase sample_runtime (JString (jstr '' '')) = Inr []
   \<and> toKebabCase sample_runtime (JString (jstr '' '')) = Inr []
   \<and> toDotCase sample_runtime (JString (jstr '' '')) = Inr []
   \<and> few_shot_toCamelCase sample_runtime (JString (jstr '' '')) = Inr []
   \<and> chain_toKebabCase sample_runtime (JString (jstr '' '')) = (Inr [], [])"
proof -
  have blank: "js_trim (jstr '' '') = []"
    by (simp add: js_trim_def jstr_def is_space_def)
  then have "is_nullish (JString (jstr '' ''))
      \<or> (\<exists>s. js_String (JString (jstr '' '')) = Inr s \<and> js_trim s = [])"
    by simp
  from empty_input_gives_empty [OF this, of sample_runtime] blank sample_nfkd_keeps_blank
  show ?thesis by simp
qed

section \<open>Words as maximal runs\<close>

lemma maximal_runs_skip:
  assumes "maximal_runs P xs ws" and "\<not> P x"
  shows "maximal_runs P (x # xs) ws"
  using assms
proof (cases rule: maximal_runs.cases)
  case no_run
  with assms(2) show ?thesis
    by (simp add: maximal_runs.no_run)
next
  case (next_run gap w rest ws')
  from next_run(3) assms(2) have "list_all (\<lambda>x. \<not> P x) (x # gap)"
    by simp
  from maximal_runs.next_run [OF this next_run(4,5,6,7)] next_run(1,2) show ?thesis
    by simp
qed

lemma match_runs_maximal: "maximal_runs P xs (match_runs P xs)"
proof (induction P xs rule: match_runs.induct)
  case (1 P)
  show ?case by (simp add: maximal_runs.no_run)
next
  case (2 P x xs)
  show ?case
  proof (cases "P x")
    case True
    have stop: "dropWhile P xs = [] \<or> \<not> P (hd (dropWhile P xs))"
      using hd_dropWhile [of P xs] by blast
    have "maximal_runs P ([] @ (x # takeWhile P xs) @ dropWhile P xs)
            ((x # takeWhile P xs) # match_runs P (dropWhile P xs))"
    proof (rule maximal_runs.next_run)
      show "list_all P (x # takeWhile P xs)"
        using True by (auto simp: list_all_iff dest: set_takeWhileD)
      show "maximal_runs P (dropWhile P xs) (match_runs P (dropWhile P xs))"
        using "2.IH"(1) True by simp
    qed (use stop in simp_all)
    with True show ?thesis by simp
  next
    case False
    with "2.IH"(2) show ?thesis
      by (simp add: maximal_runs_skip)
  qed
qed

lemma match_runs_gap: "list_all (\<lambda>x. \<not> P x) gap \<Longrightarrow> match_runs P (gap @ ys) = match_runs P ys"
  by (induction gap) simp_all

lemma match_runs_run:
  assumes "w \<noteq> []" and "list_all P w" and "rest = [] \<or> \<not> P (hd rest)"
  shows "match_runs P (w @ rest) = w # match_runs P rest"
proof -
  from assms(1) obtain x w' where w: "w = x # w'"
    by (cases w) auto
  with assms(2) have px: "P x" and pw: "\<forall>y \<in> set w'. P y"
    by (simp_all add: list_all_iff)
  from assms(3) have t: "takeWhile P rest = []" and d: "dropWhile P rest = rest"
    by (cases rest; simp)+
  from pw have "takeWhile P (w' @ rest) = w' @ takeWhile P rest"
    and "dropWhile P (w' @ rest) = dropWhile P rest"
    by simp_all
  with t d px w show ?thesis by simp
qed

lemma maximal_runs_unique: "maximal_runs P xs ws \<Longrightarrow> ws = match_runs P xs"
proof (induction rule: maximal_runs.induct)
  case (no_run gap)
  from match_runs_gap [OF this, of "[]"] show ?case by simp
next
  case (next_run gap w rest ws)
  then show ?case
    by (simp add: match_runs_gap match_runs_run)
qed

lemma maximal_runs_iff: "maximal_runs P xs ws \<longleftrightarrow> ws = match_runs P xs"
  using match_runs_maximal maximal_runs_unique by blast

lemma concat_code_points: "concat (code_points s) = s"
  by (induction s rule: code_points.induct) simp_all

lemma concat_code_units: "concat (code_units s) = s"
  by (induction s) (simp_all add: code_units_def)

lemma concat_regex_positions: "concat (regex_positions re s) = s"
  by (cases re) (simp_all add: concat_code_points concat_code_units)

lemma js_match_word_runs:
  "js_match rt re str =
     (if word_runs rt re str = [] then None else Some (map concat (word_runs rt re str)))"
  by (simp add: js_match_def split: list.splits)

lemma few_shot_parts_fooBar: "few_shot_parts (jstr ''fooBar'') = [jstr ''foo'', jstr ''Bar'']"
  by code_simp

lemma kebab_tokens_fooBar:
  "kebab_tokens legacy_runtime (jstr ''fooBar'') = [jstr ''foo'', jstr ''Bar'']"
  by code_simp

lemma runs_fooBar: "match_runs is_alnum (jstr ''fooBar'') = [jstr ''fooBar'']"
  by code_simp

section \<open>Joining the words\<close>

lemma js_join_empty_sep: "js_join [] ws = concat ws"
  by (induction "[] :: js_string" ws rule: js_join.induct) simp_all

section \<open>ASCII input\<close>

lemma ascii_not_surrogate: "is_ascii c \<Longrightarrow> \<not> is_high_surrogate c"
  by (simp add: is_ascii_def is_high_surrogate_def word_le_nat_alt word_less_nat_alt)

lemma code_points_ascii: "list_all is_ascii s \<Longrightarrow> code_points s = code_units s"
  by (induction s rule: code_points.induct) (simp_all add: code_units_def ascii_not_surrogate)

lemma match_runs_cong:
  "(\<And>x. x \<in> set xs \<Longrightarrow> P x = Q x) \<Longrightarrow> match_runs P xs = match_runs Q xs"
proof (induction P xs rule: match_runs.induct)
  case (1 P)
  show ?case by simp
next
  case (2 P x xs)
  have t: "takeWhile P xs = takeWhile Q xs"
    using "2.prems" by (intro takeWhile_cong) simp_all
  have d: "dropWhile P xs = dropWhile Q xs"
    using "2.prems" by (intro dropWhile_cong) simp_all
  have sub: "set (dropWhile P xs) \<subseteq> set xs"
    by (auto dest: set_dropWhileD)
  show ?case
  proof (cases "P x")
    case True
    with "2.prems" have q: "Q x" by simp
    from "2.IH"(1) [OF True] "2.prems" sub
    have "match_runs P (dropWhile P xs) = match_runs Q (dropWhile P xs)"
      by auto
    with True q t d show ?thesis by simp
  next
    case False
    with "2.prems" have q: "\<not> Q x" by simp
    from "2.IH"(2) [OF False] "2.prems" have "match_runs P xs = match_runs Q xs"
      by simp
    with False q show ?thesis by simp
  qed
qed

lemma word_runs_ascii:
  assumes "list_all is_ascii str"
  shows "word_runs rt re str = match_runs ascii_letter_or_digit (code_units str)"
proof (cases re)
  case UnicodeWords
  have "match_runs (unicode_letter_or_number rt) (code_units str)
      = match_runs ascii_letter_or_digit (code_units str)"
    using assms by (intro match_runs_cong) (auto simp: code_units_def list_all_iff)
  with UnicodeWords assms show ?thesis
    by (simp add: word_runs_def code_points_ascii)
next
  case AsciiWords
  then show ?thesis by (simp add: word_runs_def)
qed

lemma js_match_ascii:
  "list_all is_ascii str \<Longrightarrow> js_match rt re str = js_match rt' re' str"
  by (simp add: js_match_def word_runs_ascii [of str rt re] word_runs_ascii [of str rt' re'])

lemma set_js_trim: "set (js_trim s) \<subseteq> set s"
proof
  fix x
  assume "x \<in> set (js_trim s)"
  then have "x \<in> set (dropWhile is_space (rev (dropWhile is_space s)))"
    by (simp add: js_trim_def)
  then have "x \<in> set (rev (dropWhile is_space s))"
    by (rule set_dropWhileD)
  then show "x \<in> set s"
    by (auto dest: set_dropWhileD)
qed

lemma js_trim_ascii: "list_all is_ascii s \<Longrightarrow> list_all is_ascii (js_trim s)"
  using set_js_trim [of s] by (auto simp: list_all_iff)

lemma match_runs_subset: "r \<in> set (match_runs P xs) \<Longrightarrow> set r \<subseteq> set xs"
proof (induction P xs arbitrary: r rule: match_runs.induct)
  case (1 P)
  then show ?case by simp
next
  case (2 P x xs)
  show ?case
  proof (cases "P x")
    case True
    with "2.prems" consider "r = x # takeWhile P xs" | "r \<in> set (match_runs P (dropWhile P xs))"
      by auto
    then show ?thesis
    proof cases
      case 1
      then show ?thesis by (auto dest: set_takeWhileD)
    next
      case 2
      from "2.IH"(1) [OF True 2] show ?thesis
        by (auto dest: set_dropWhileD)
    qed
  next
    case False
    with "2.prems" "2.IH"(2) show ?thesis by auto
  qed
qed

lemma word_subset:
  assumes "w \<in> set (map concat (word_runs rt re str))"
  shows "set w \<subseteq> set str"
proof -
  from assms obtain r where r: "r \<in> set (word_runs rt re str)" and w: "w = concat r"
    by auto
  from r have "set r \<subseteq> set (regex_positions re str)"
    by (simp add: word_runs_def match_runs_subset)
  then have "set (concat r) \<subseteq> set (concat (regex_positions re str))"
    by auto
  then show ?thesis using w by (simp add: concat_regex_positions)
qed

lemma js_match_words_ascii:
  assumes "js_match rt re str = Some ws" and "list_all is_ascii str" and "w \<in> set ws"
  shows "list_all is_ascii w"
proof -
  from assms(1) have "ws = map concat (word_runs rt re str)"
    by (auto simp: js_match_def split: list.splits)
  with assms(3) have "set w \<subseteq> set str"
    by (simp add: word_subset)
  with assms(2) show ?thesis
    by (auto simp: list_all_iff)
qed

lemma ascii_lower_ascii: "is_ascii c \<Longrightarrow> is_ascii (ascii_lower c)"
  by (auto simp: is_ascii_def ascii_lower_def is_upper_def word_le_nat_alt word_less_nat_alt
      unat_word_ariths)

lemma to_lower_ascii: "list_all is_ascii w \<Longrightarrow> to_lower rt w = map ascii_lower w"
  by (simp add: to_lower_def)

lemma to_lower_ascii_is_ascii: "list_all is_ascii w \<Longrightarrow> list_all is_ascii (to_lower rt w)"
  by (simp add: to_lower_def list_all_iff ascii_lower_ascii)

lemma capitalize_ascii:
  assumes "list_all is_ascii w"
  shows "to_upper rt (take 1 (to_lower rt w)) @ drop 1 (to_lower rt w)
       = to_upper rt' (take 1 (to_lower rt' w)) @ drop 1 (to_lower rt' w)"
proof -
  have l: "to_lower rt w = to_lower rt' w"
    using assms by (simp add: to_lower_ascii)
  have "list_all is_ascii (take 1 (to_lower rt' w))"
    using to_lower_ascii_is_ascii [OF assms, of rt'] by (auto simp: list_all_iff dest: in_set_takeD)
  then have "to_upper rt (take 1 (to_lower rt' w)) = to_upper rt' (take 1 (to_lower rt' w))"
    by (simp add: to_upper_def)
  with l show ?thesis by simp
qed

lemma toKebabCase_ascii:
  assumes "js_String v = Inr s" and "list_all is_ascii s"
  shows "toKebabCase rt v = toKebabCase rt' v"
proof -
  have m: "js_match rt (wordRegex rt) (js_trim s) = js_match rt' (wordRegex rt') (js_trim s)"
    using assms(2) by (intro js_match_ascii js_trim_ascii)
  have l: "map (to_lower rt) ws = map (to_lower rt') ws"
    if "js_match rt' (wordRegex rt') (js_trim s) = Some ws" for ws
    using js_match_words_ascii [OF that js_trim_ascii [OF assms(2)]]
    by (simp add: to_lower_ascii)
  from assms(1) m show ?thesis
    by (auto simp: toKebabCase_def Let_def l split: option.splits)
qed

lemma toDotCase_ascii:
  assumes "js_String v = Inr s" and "list_all is_ascii s"
  shows "toDotCase rt v = toDotCase rt' v"
proof -
  have m: "js_match rt (wordRegex rt) (js_trim s) = js_match rt' (wordRegex rt') (js_trim s)"
    using assms(2) by (intro js_match_ascii js_trim_ascii)
  have l: "map (to_lower rt) ws = map (to_lower rt') ws"
    if "js_match rt' (wordRegex rt') (js_trim s) = Some ws" for ws
    using js_match_words_ascii [OF that js_trim_ascii [OF assms(2)]]
    by (simp add: to_lower_ascii)
  from assms(1) m show ?thesis
    by (auto simp: toDotCase_def Let_def l split: option.splits)
qed

lemma toCamelCase_ascii:
  assumes "js_String v = Inr s" and "list_all is_ascii s"
  shows "toCamelCase rt v = toCamelCase rt' v"
proof -
  have m: "js_match rt (wordRegex rt) (js_trim s) = js_match rt' (wordRegex rt') (js_trim s)"
    using assms(2) by (intro js_match_ascii js_trim_ascii)
  have l: "to_lower rt first @ js_join []
          (map (\<lambda>w. to_upper rt (take 1 (to_lower rt w)) @ drop 1 (to_lower rt w)) rest)
      = to_lower rt' first @ js_join []
          (map (\<lambda>w. to_upper rt' (take 1 (to_lower rt' w)) @ drop 1 (to_lower rt' w)) rest)"
    if "js_match rt' (wordRegex rt') (js_trim s) = Some (first # rest)" for first rest
  proof -
    have a: "list_all is_ascii w" if "w \<in> set (first # rest)" for w
      using js_match_words_ascii [OF \<open>js_match rt' (wordRegex rt') (js_trim s) = Some (first # rest)\<close>
          js_trim_ascii [OF assms(2)] that] .
    have f: "to_lower rt first = to_lower rt' first"
      using a [of first] by (simp add: to_lower_ascii)
    have r: "map (\<lambda>w. to_upper rt (take 1 (to_lower rt w)) @ drop 1 (to_lower rt w)) rest
        = map (\<lambda>w. to_upper rt' (take 1 (to_lower rt' w)) @ drop 1 (to_lower rt' w)) rest"
      using a by (intro map_cong refl capitalize_ascii) simp
    show ?thesis by (simp only: f r)
  qed
  from assms(1) m l show ?thesis
    by (auto simp: toCamelCase_def Let_def split: option.splits list.splits)
qed

text \<open>
  Claim C7: on an input whose string form holds ASCII only, the Unicode regex and the
  ASCII fallback give the same words, so \<^verbatim>\<open>toCamelCase\<close>, \<^verbatim>\<open>toKebabCase\<close> and
  \<^verbatim>\<open>toDotCase\<close> of \<^verbatim>\<open>refined_prompt.js\<close> return the same on a runtime that selects
  the one and on a runtime that selects the other.
\<close>

theorem ascii_regex_choice_irrelevant:
  assumes "js_String v = Inr s" and "list_all is_ascii s"
    and "unicode_props rt" and "\<not> unicode_props rt'"
  shows "wordRegex rt = UnicodeWords \<and> wordRegex rt' = AsciiWords
       \<and> js_match rt UnicodeWords s = js_match rt' AsciiWords s
       \<and> toCamelCase rt v = toCamelCase rt' v
       \<and> toKebabCase rt v = toKebabCase rt' v
       \<and> toDotCase rt v = toDotCase rt' v"
  using assms
  by (simp add: wordRegex_def js_match_ascii [of s rt UnicodeWords rt' AsciiWords]
      toCamelCase_ascii [of v s rt rt'] toKebabCase_ascii [of v s rt rt']
      toDotCase_ascii [of v s rt rt'])

text \<open>Claim C7 at the string \<^verbatim>\<open>Foo_BAR-baz\<close> and the two example runtimes.\<close>

theorem ascii_regex_choice_irrelevant_witness:
  "js_String (JString (jstr ''Foo_BAR-baz'')) = Inr (jstr ''Foo_BAR-baz'')
   \<and> list_all is_ascii (jstr ''Foo_BAR-baz'')
   \<and> unicode_props sample_runtime \<and> \<not> unicode_props legacy_runtime
   \<and> js_match sample_runtime UnicodeWords (jstr ''Foo_BAR-baz'')
       = js_match legacy_runtime AsciiWords (jstr ''Foo_BAR-baz'')
   \<and> toCamelCase sample_runtime (JString (jstr ''Foo_BAR-baz''))
       = toCamelCase legacy_runtime (JString (jstr ''Foo_BAR-baz''))
   \<and> toKebabCase sample_runtime (JString (jstr ''Foo_BAR-baz''))
       = toKebabCase legacy_runtime (JString (jstr ''Foo_BAR-baz''))
   \<and> toDotCase sample_runtime (JString (jstr ''Foo_BAR-baz''))
       = toDotCase legacy_runtime (JString (jstr ''Foo_BAR-baz''))"
proof -
  have a: "list_all is_ascii (jstr ''Foo_BAR-baz'')"
    by code_simp
  have u: "unicode_props sample_runtime" and l: "\<not> unicode_props legacy_runtime"
    by (simp_all add: sample_runtime_def legacy_runtime_def)
  from ascii_regex_choice_irrelevant [OF _ a u l, of "JString (jstr ''Foo_BAR-baz'')"] a u l
  show ?thesis by simp
qed


section \<open>No empty token, clean output\<close>

lemma match_runs_nonempty: "r \<in> set (match_runs P xs) \<Longrightarrow> r \<noteq> []"
  by (induction P xs rule: match_runs.induct) (auto split: if_splits)

lemma match_runs_class: "r \<in> set (match_runs P xs) \<Longrightarrow> x \<in> set r \<Longrightarrow> P x"
  by (induction P xs rule: match_runs.induct) (auto split: if_splits dest: set_takeWhileD)

lemma code_points_shape:
  "p \<in> set (code_points s) \<Longrightarrow>
     (\<exists>c. p = [c]) \<or> (\<exists>h l. p = [h, l] \<and> is_high_surrogate h \<and> is_low_surrogate l)"
  by (induction s rule: code_points.induct) (auto split: if_splits)

lemma regex_positions_nonempty: "p \<in> set (regex_positions re s) \<Longrightarrow> p \<noteq> []"
  by (cases re) (auto simp: code_units_def dest: code_points_shape)

lemma word_nonempty:
  assumes "w \<in> set (map concat (word_runs rt re str))"
  shows "w \<noteq> []"
proof -
  from assms obtain r where r: "r \<in> set (word_runs rt re str)" and w: "w = concat r"
    by auto
  from r have "r \<noteq> []"
    by (simp add: word_runs_def match_runs_nonempty)
  then obtain p ps where ps: "r = p # ps"
    by (cases r) auto
  with r have "p \<in> set (regex_positions re str)"
    using match_runs_subset [of r "regex_class rt re" "regex_positions re str"]
    by (auto simp: word_runs_def)
  then have "p \<noteq> []"
    by (rule regex_positions_nonempty)
  with ps w show ?thesis by simp
qed

lemma surrogate_not_ascii:
  "is_high_surrogate c \<or> is_low_surrogate c \<Longrightarrow> \<not> is_ascii c"
  by (auto simp: is_ascii_def is_high_surrogate_def is_low_surrogate_def
      word_le_nat_alt word_less_nat_alt)

lemma word_position_free:
  assumes p: "p \<in> set (regex_positions re str)" and cls: "regex_class rt re p"
    and sep: "is_ascii sep" "\<not> is_alnum sep"
  shows "sep \<notin> set p"
proof (cases re)
  case UnicodeWords
  with p have "(\<exists>c. p = [c]) \<or> (\<exists>h l. p = [h, l] \<and> is_high_surrogate h \<and> is_low_surrogate l)"
    by (simp add: code_points_shape)
  then show ?thesis
  proof
    assume "\<exists>c. p = [c]"
    then obtain c where c: "p = [c]" by blast
    with cls UnicodeWords sep show ?thesis
      by (auto split: if_splits)
  next
    assume "\<exists>h l. p = [h, l] \<and> is_high_surrogate h \<and> is_low_surrogate l"
    with sep(1) surrogate_not_ascii show ?thesis
      by auto
  qed
next
  case AsciiWords
  with p obtain c where "p = [c]"
    by (auto simp: code_units_def)
  with cls AsciiWords sep show ?thesis
    by auto
qed

lemma word_free:
  assumes "w \<in> set (map concat (word_runs rt re str))" and "is_ascii sep" and "\<not> is_alnum sep"
  shows "sep \<notin> set w"
proof
  assume "sep \<in> set w"
  with assms(1) obtain r p where r: "r \<in> set (word_runs rt re str)" and p: "p \<in> set r"
    and s: "sep \<in> set p"
    by auto
  from r p have "regex_class rt re p"
    by (auto simp: word_runs_def dest: match_runs_class)
  moreover from r p have "p \<in> set (regex_positions re str)"
    using match_runs_subset [of r "regex_class rt re" "regex_positions re str"]
    by (auto simp: word_runs_def)
  ultimately have "sep \<notin> set p"
    using assms(2,3) by (intro word_position_free)
  with s show False by simp
qed

lemma upper_plus_32_lower: "is_upper c \<Longrightarrow> is_lower (c + 0x20)"
  by (auto simp: is_upper_def is_lower_def word_le_nat_alt unat_word_ariths)

lemma ascii_lower_free:
  assumes "c \<noteq> sep" and "\<not> is_lower sep"
  shows "ascii_lower c \<noteq> sep"
  using assms upper_plus_32_lower [of c] by (auto simp: ascii_lower_def)

lemma to_lower_free:
  assumes "w \<noteq> []" and "sep \<notin> set w" and "\<not> is_lower sep" and "lower_keeps_free rt sep"
  shows "to_lower rt w \<noteq> [] \<and> sep \<notin> set (to_lower rt w)"
proof (cases "list_all is_ascii w")
  case True
  have "ascii_lower c \<noteq> sep" if "c \<in> set w" for c
    using that assms(2,3) by (intro ascii_lower_free) auto
  with True assms(1) show ?thesis
    by (auto simp: to_lower_def)
next
  case False
  with assms(1,2,4) show ?thesis
    by (simp add: to_lower_def lower_keeps_free_def)
qed

lemma has_adjacent_free: "sep \<notin> set w \<Longrightarrow> \<not> has_adjacent sep w"
  by (induction sep w rule: has_adjacent.induct) auto

lemma has_adjacent_append:
  "sep \<notin> set w \<Longrightarrow> has_adjacent sep (w @ sep # ys) = has_adjacent sep (sep # ys)"
proof (induction w)
  case Nil
  show ?case by simp
next
  case (Cons a w)
  then show ?case by (cases w) auto
qed

lemma has_adjacent_sep:
  "ys \<noteq> [] \<Longrightarrow> hd ys \<noteq> sep \<Longrightarrow> has_adjacent sep (sep # ys) = has_adjacent sep ys"
  by (cases ys) auto

lemma js_join_clean:
  assumes "\<forall>w \<in> set ws. w \<noteq> [] \<and> sep \<notin> set w" and "ws \<noteq> []"
  shows "js_join [sep] ws \<noteq> [] \<and> hd (js_join [sep] ws) \<noteq> sep
       \<and> last (js_join [sep] ws) \<noteq> sep \<and> \<not> has_adjacent sep (js_join [sep] ws)"
  using assms
proof (induction "[sep]" ws rule: js_join.induct)
  case 1
  then show ?case by simp
next
  case (2 w)
  then have "w \<noteq> []" and "sep \<notin> set w" by simp_all
  then show ?case
    using hd_in_set [of w] last_in_set [of w] by (auto simp: has_adjacent_free)
next
  case (3 w v ws)
  define out where "out = js_join [sep] (v # ws)"
  from 3 have w: "w \<noteq> []" "sep \<notin> set w" by simp_all
  from 3 have ih: "out \<noteq> []" "hd out \<noteq> sep" "last out \<noteq> sep" "\<not> has_adjacent sep out"
    by (simp_all add: out_def)
  have "hd w \<noteq> sep"
    using w hd_in_set [of w] by auto
  moreover have "has_adjacent sep (w @ sep # out) = has_adjacent sep out"
    using w ih by (simp add: has_adjacent_append has_adjacent_sep)
  ultimately show ?case
    using w ih by (simp add: out_def [symmetric])
qed

lemma separator_clean_join:
  assumes "\<forall>w \<in> set ws. w \<noteq> [] \<and> sep \<notin> set w"
  shows "separator_clean sep (js_join [sep] ws)"
proof (cases ws)
  case Nil
  then show ?thesis by (simp add: separator_clean_def)
next
  case (Cons w ws')
  with js_join_clean [OF assms] show ?thesis
    by (simp add: separator_clean_def)
qed


lemma squash_separators_chars: "c \<in> set (squash_separators s) \<Longrightarrow> is_alnum c \<or> c = 0x20"
  by (induction s rule: squash_separators.induct) (auto split: if_splits)

lemma js_split_from_chars:
  "p \<in> set (js_split_from sep piece cs) \<Longrightarrow> c \<in> set p \<Longrightarrow>
     c \<in> set piece \<or> (c \<in> set cs \<and> \<not> sep c)"
  by (induction sep piece cs arbitrary: p rule: js_split_from.induct)
    (auto split: if_splits dest: set_dropWhileD)

lemma kebab_tokens_alnum:
  assumes "t \<in> set (kebab_tokens rt s)"
  shows "t \<noteq> [] \<and> list_all is_alnum t"
proof -
  define trimmed where "trimmed = js_trim (squash_separators (split_capitals_word
    (split_lower_upper (if has_normalize rt then strip_combining (normalize_nfkd rt s) else s))))"
  from assms have t: "t \<noteq> []" "t \<in> set (js_split_from is_space [] trimmed)"
    by (simp_all add: kebab_tokens_def trimmed_def filter_Boolean_def js_split_def Let_def)
  have "is_alnum c" if "c \<in> set t" for c
  proof -
    from js_split_from_chars [OF t(2) that] have c: "c \<in> set trimmed" "\<not> is_space c"
      by simp_all
    from c(1) have "is_alnum c \<or> c = 0x20"
      using set_js_trim squash_separators_chars unfolding trimmed_def by blast
    with c(2) show ?thesis
      by (auto simp: is_space_def)
  qed
  with t(1) show ?thesis
    by (simp add: list_all_iff)
qed

lemma alnum_ascii: "is_alnum c \<Longrightarrow> is_ascii c"
  by (auto simp: is_alnum_def is_upper_def is_lower_def is_digit_def is_ascii_def
      word_le_nat_alt word_less_nat_alt)

lemma hyphen_class: "is_ascii 0x2D" "\<not> is_alnum 0x2D" "\<not> is_lower 0x2D"
  by (simp_all add: is_ascii_def is_alnum_def is_upper_def is_lower_def is_digit_def)

lemma dot_class: "is_ascii 0x2E" "\<not> is_alnum 0x2E" "\<not> is_lower 0x2E"
  by (simp_all add: is_ascii_def is_alnum_def is_upper_def is_lower_def is_digit_def)

lemma jstr_hyphen: "jstr ''-'' = [0x2D]"
  by (simp add: jstr_def)

lemma jstr_dot: "jstr ''.'' = [0x2E]"
  by (simp add: jstr_def)

lemma toKebabCas_clean:
  assumes "toKebabCas rt v = Inr out"
  shows "separator_clean 0x2D out"
proof (cases "is_nullish v")
  case True
  with assms show ?thesis
    by (simp add: toKebabCas_def separator_clean_def)
next
  case False
  with assms obtain s where out: "out = js_join [0x2D] (map (to_lower rt) (kebab_tokens rt s))"
    by (auto simp: toKebabCas_def jstr_hyphen split: sum.splits)
  have "w \<noteq> [] \<and> 0x2D \<notin> set w" if "w \<in> set (map (to_lower rt) (kebab_tokens rt s))" for w
  proof -
    from that obtain t where t: "t \<in> set (kebab_tokens rt s)" and w: "w = to_lower rt t"
      by auto
    from kebab_tokens_alnum [OF t] have ne: "t \<noteq> []" and al: "\<forall>c \<in> set t. is_alnum c"
      by (simp_all add: list_all_iff)
    from al have "list_all is_ascii t"
      by (simp add: list_all_iff alnum_ascii)
    then have l: "w = map ascii_lower t"
      using w by (simp add: to_lower_def)
    have "ascii_lower c \<noteq> 0x2D" if "c \<in> set t" for c
      using that al hyphen_class by (intro ascii_lower_free) auto
    with ne l show ?thesis by auto
  qed
  then show ?thesis
    unfolding out by (intro separator_clean_join) blast
qed

lemma chain_toKebabCase_clean:
  assumes "fst (chain_toKebabCase rt v) = Inr out"
  shows "separator_clean 0x2D out"
proof (cases "toKebabCas rt v")
  case (Inr r)
  with assms have "out = r"
    by (auto simp: chain_toKebabCase_def split: if_splits)
  with Inr show ?thesis
    by (simp add: toKebabCas_clean)
next
  case (Inl e)
  with assms have "out = []"
    by (cases e) (auto simp: chain_toKebabCase_def split: if_splits)
  then show ?thesis
    by (simp add: separator_clean_def)
qed

lemma refined_join_clean:
  assumes "js_match rt re str = Some ws" and "lower_keeps_free rt sep"
    and "is_ascii sep" "\<not> is_alnum sep" "\<not> is_lower sep"
  shows "separator_clean sep (js_join [sep] (map (to_lower rt) ws))"
proof -
  from assms(1) have ws: "ws = map concat (word_runs rt re str)"
    by (auto simp: js_match_def split: list.splits)
  have "l \<noteq> [] \<and> sep \<notin> set l" if "l \<in> set (map (to_lower rt) ws)" for l
  proof -
    from that obtain w where w: "w \<in> set ws" and l: "l = to_lower rt w"
      by auto
    from w ws have "w \<noteq> []" and "sep \<notin> set w"
      using word_nonempty [of w rt re str] word_free [of w rt re str sep] assms(3,4)
      by simp_all
    with l assms(2,5) show ?thesis
      by (simp add: to_lower_free)
  qed
  then show ?thesis
    by (intro separator_clean_join) blast
qed

lemma toKebabCase_clean:
  assumes "toKebabCase rt v = Inr out" and "lower_keeps_free rt 0x2D"
  shows "separator_clean 0x2D out"
proof -
  consider "out = []"
    | s ws where "js_match rt (wordRegex rt) (js_trim s) = Some ws"
        "out = js_join [0x2D] (map (to_lower rt) ws)"
    using assms(1)
    by (auto simp: toKebabCase_def Let_def jstr_hyphen split: if_splits sum.splits option.splits)
  then show ?thesis
  proof cases
    case 1
    then show ?thesis by (simp add: separator_clean_def)
  next
    case 2
    with refined_join_clean [OF 2(1) assms(2) hyphen_class] show ?thesis
      by simp
  qed
qed

lemma toDotCase_clean:
  assumes "toDotCase rt v = Inr out" and "lower_keeps_free rt 0x2E"
  shows "separator_clean 0x2E out"
proof -
  consider "out = []"
    | s ws where "js_match rt (wordRegex rt) (js_trim s) = Some ws"
        "out = js_join [0x2E] (map (to_lower rt) ws)"
    using assms(1)
    by (auto simp: toDotCase_def Let_def jstr_dot split: if_splits sum.splits option.splits)
  then show ?thesis
  proof cases
    case 1
    then show ?thesis by (simp add: separator_clean_def)
  next
    case 2
    with refined_join_clean [OF 2(1) assms(2) dot_class] show ?thesis
      by simp
  qed
qed

lemma js_match_nonempty: "js_match rt re str = Some ws \<Longrightarrow> [] \<notin> set ws"
  using word_nonempty [of "[]" rt re str]
  by (auto simp: js_match_def split: list.splits)

text \<open>
  Claim C8: no tokenizer yields an empty token (\<^verbatim>\<open>match\<close> in \<^verbatim>\<open>refined_prompt.js\<close>,
  \<^verbatim>\<open>parts\<close> in \<^verbatim>\<open>few_shot_prompt.js\<close>, the tokens of \<^verbatim>\<open>toKebabCas\<close>), and what
  \<^verbatim>\<open>toKebabCase\<close> and \<^verbatim>\<open>toDotCase\<close> return has no two adjacent separators and neither
  begins nor ends with one. For the functions of \<^verbatim>\<open>refined_prompt.js\<close> the runtime's
  lower-casing beyond ASCII is taken neither to empty a word nor to bring in the
  separator.
\<close>

theorem no_empty_token_clean_output:
  "(js_match rt re str = Some ws \<longrightarrow> [] \<notin> set ws)
   \<and> [] \<notin> set (few_shot_parts str)
   \<and> [] \<notin> set (kebab_tokens rt str)
   \<and> (lower_keeps_free rt 0x2D \<and> toKebabCase rt v = Inr out \<longrightarrow> separator_clean 0x2D out)
   \<and> (lower_keeps_free rt 0x2E \<and> toDotCase rt v = Inr out \<longrightarrow> separator_clean 0x2E out)
   \<and> (fst (chain_toKebabCase rt v) = Inr out \<longrightarrow> separator_clean 0x2D out)"
proof -
  have "[] \<notin> set (few_shot_parts str)"
    by (simp add: few_shot_parts_def filter_Boolean_def Let_def)
  moreover have "[] \<notin> set (kebab_tokens rt str)"
    by (simp add: kebab_tokens_def filter_Boolean_def Let_def)
  ultimately show ?thesis
    using js_match_nonempty toKebabCase_clean toDotCase_clean chain_toKebabCase_clean
    by blast
qed

lemma sample_lower_keeps_free: "lower_keeps_free sample_runtime 0x2D" "lower_keeps_free sample_runtime 0x2E"
  by (simp_all add: lower_keeps_free_def sample_runtime_def)

text \<open>Claim C8 at the string \<^verbatim>\<open>--Ab..c\<close>.\<close>

theorem no_empty_token_clean_output_witness:
  "js_match sample_runtime UnicodeWords (jstr ''--Ab..c'') = Some [jstr ''Ab'', jstr ''c'']
   \<and> [] \<notin> set [jstr ''Ab'', jstr ''c'']
   \<and> lower_keeps_free sample_runtime 0x2D \<and> lower_keeps_free sample_runtime 0x2E
   \<and> toKebabCase sample_runtime (JString (jstr ''--Ab..c'')) = Inr (jstr ''ab-c'')
   \<and> separator_clean 0x2D (jstr ''ab-c'')
   \<and> toDotCase sample_runtime (JString (jstr ''--Ab..c'')) = Inr (jstr ''ab.c'')
   \<and> separator_clean 0x2E (jstr ''ab.c'')
   \<and> fst (chain_toKebabCase sample_runtime (JString (jstr ''--Ab..c''))) = Inr (jstr ''ab-c'')"
proof -
  have m: "js_match sample_runtime UnicodeWords (jstr ''--Ab..c'') = Some [jstr ''Ab'', jstr ''c'']"
    by code_simp
  have k: "toKebabCase sample_runtime (JString (jstr ''--Ab..c'')) = Inr (jstr ''ab-c'')"
    by code_simp
  have d: "toDotCase sample_runtime (JString (jstr ''--Ab..c'')) = Inr (jstr ''ab.c'')"
    by code_simp
  have c: "fst (chain_toKebabCase sample_runtime (JString (jstr ''--Ab..c''))) = Inr (jstr ''ab-c'')"
    by code_simp
  from no_empty_token_clean_output [of sample_runtime UnicodeWords "jstr ''--Ab..c''"
      "[jstr ''Ab'', jstr ''c'']" "JString (jstr ''--Ab..c'')" "jstr ''ab-c''"]
    no_empty_token_clean_output [of sample_runtime UnicodeWords "jstr ''--Ab..c''"
      "[jstr ''Ab'', jstr ''c'']" "JString (jstr ''--Ab..c'')" "jstr ''ab.c''"]
    m k d c sample_lower_keeps_free
  show ?thesis by simp
qed


section \<open>Applying \<^verbatim>\<open>toKebabCase\<close> twice\<close>

lemma match_runs_map: "match_runs P (map f xs) = map (map f) (match_runs (\<lambda>x. P (f x)) xs)"
proof (induction "\<lambda>x. P (f x)" xs rule: match_runs.induct)
  case 1
  show ?case by simp
next
  case (2 x xs)
  then show ?case
    by (simp add: takeWhile_map dropWhile_map comp_def)
qed

lemma ascii_runs_units:
  "map concat (match_runs ascii_letter_or_digit (code_units s)) = match_runs is_alnum s"
proof -
  have "map concat (map (map (\<lambda>c. [c])) rs) = rs" for rs :: "js_string list"
    by (induction rs) (simp_all add: concat_map_singleton)
  then show ?thesis
    by (simp add: code_units_def match_runs_map)
qed

lemma ascii_words:
  assumes "\<not> unicode_props rt \<or> list_all is_ascii str"
  shows "js_match rt (wordRegex rt) str =
           (if match_runs is_alnum str = [] then None else Some (match_runs is_alnum str))"
proof -
  have "word_runs rt (wordRegex rt) str = match_runs ascii_letter_or_digit (code_units str)"
    using assms by (auto simp: word_runs_ascii) (simp add: wordRegex_def word_runs_def)
  then have "map concat (word_runs rt (wordRegex rt) str) = match_runs is_alnum str"
    by (simp add: ascii_runs_units)
  then show ?thesis
    by (simp add: js_match_def split: list.splits)
qed












section \<open>The two \<^verbatim>\<open>toCamelCase\<close> functions\<close>

lemma split_lower_upper_id: "\<not> has_lower_upper s \<Longrightarrow> split_lower_upper s = s"
  by (induction s rule: split_lower_upper.induct) auto

lemma backtrack_capitals_Some:
  "backtrack_capitals s n = Some k \<Longrightarrow>
     0 < k \<and> k \<le> n \<and> Suc k < length s \<and> is_upper (s ! k) \<and> is_lower_digit (s ! Suc k)"
  by (induction n) (auto split: if_splits)

lemma has_capitals_lower_at:
  "i + 2 < length s \<Longrightarrow> is_upper (s ! i) \<Longrightarrow> is_upper (s ! (i + 1)) \<Longrightarrow>
     is_lower_digit (s ! (i + 2)) \<Longrightarrow> has_capitals_lower s"
proof (induction s arbitrary: i rule: has_capitals_lower.induct)
  case (1 a b c cs)
  show ?case
  proof (cases i)
    case 0
    with 1 show ?thesis by simp
  next
    case (Suc j)
    with "1.prems" have "has_capitals_lower (b # c # cs)"
      by (intro "1.IH" [of j]) simp_all
    then show ?thesis by simp
  qed
qed simp_all

lemma takeWhile_nth_holds: "i < length (takeWhile P xs) \<Longrightarrow> P (xs ! i)"
proof -
  assume i: "i < length (takeWhile P xs)"
  then have "takeWhile P xs ! i \<in> set (takeWhile P xs)"
    by (rule nth_mem)
  then have "P (takeWhile P xs ! i)"
    by (rule set_takeWhileD [THEN conjunct2])
  with i show ?thesis
    by (simp add: takeWhile_nth)
qed

lemma match_capitals_Some:
  assumes "match_capitals s = Some k"
  shows "has_capitals_lower s"
proof -
  from assms have "backtrack_capitals s (length (takeWhile is_upper s)) = Some k"
    by (simp add: match_capitals_def)
  from backtrack_capitals_Some [OF this]
  have k: "0 < k" "k \<le> length (takeWhile is_upper s)" "Suc k < length s"
    "is_upper (s ! k)" "is_lower_digit (s ! Suc k)"
    by simp_all
  from k(1,2) have "k - 1 < length (takeWhile is_upper s)"
    by simp
  then have "is_upper (s ! (k - 1))"
    by (rule takeWhile_nth_holds)
  moreover from k(1) have "k - 1 + 1 = k" and "k - 1 + 2 = Suc k"
    by simp_all
  ultimately show ?thesis
    using k(3,4,5) by (intro has_capitals_lower_at [of "k - 1"]) simp_all
qed

lemma has_capitals_lower_tl: "has_capitals_lower cs \<Longrightarrow> has_capitals_lower (c # cs)"
proof (cases cs)
  case Nil
  assume "has_capitals_lower cs"
  with Nil show ?thesis by simp
next
  case (Cons a as)
  assume h: "has_capitals_lower cs"
  show ?thesis
  proof (cases as)
    case Nil
    with Cons h show ?thesis by simp
  next
    case (Cons b bs)
    with \<open>cs = a # as\<close> h show ?thesis by simp
  qed
qed

lemma split_capitals_id: "\<not> has_capitals_lower s \<Longrightarrow> split_capitals s = s"
proof (induction s)
  case Nil
  show ?case by simp
next
  case (Cons c cs)
  then have "match_capitals (c # cs) = None"
    using match_capitals_Some [of "c # cs"] by (cases "match_capitals (c # cs)") auto
  moreover from Cons have "split_capitals cs = cs"
    using has_capitals_lower_tl by blast
  ultimately show ?case by simp
qed

lemma match_runs_dropWhile: "match_runs P (dropWhile (\<lambda>x. \<not> P x) xs) = match_runs P xs"
  by (induction xs) simp_all

lemma match_runs_all:
  "list_all P piece \<Longrightarrow> match_runs P piece = (if piece = [] then [] else [piece])"
  using match_runs_run [of piece P "[]"] by simp

lemma js_split_from_runs:
  "list_all P piece \<Longrightarrow>
     filter_Boolean (js_split_from (\<lambda>c. \<not> P c) piece cs) = match_runs P (piece @ cs)"
proof (induction "\<lambda>c. \<not> P c" piece cs rule: js_split_from.induct)
  case (1 piece)
  then show ?case
    by (simp add: filter_Boolean_def match_runs_all)
next
  case (2 piece c cs)
  show ?case
  proof (cases "P c")
    case True
    with 2 show ?thesis by simp
  next
    case False
    with "2.hyps"(1) have rest: "filter_Boolean (js_split_from (\<lambda>c. \<not> P c) [] (dropWhile (\<lambda>c. \<not> P c) cs))
        = match_runs P cs"
      by (simp add: match_runs_dropWhile)
    show ?thesis
    proof (cases "piece = []")
      case True
      with False rest show ?thesis
        by (simp add: filter_Boolean_def)
    next
      case ne: False
      with "2.prems" False have "match_runs P (piece @ c # cs) = piece # match_runs P (c # cs)"
        by (intro match_runs_run) simp_all
      with False ne rest show ?thesis
        by (simp add: filter_Boolean_def)
    qed
  qed
qed

lemma few_shot_parts_runs:
  "\<not> has_case_boundary s \<Longrightarrow> few_shot_parts s = match_runs is_alnum s"
  using js_split_from_runs [of is_alnum "[]" s]
  by (simp add: few_shot_parts_def has_case_boundary_def split_lower_upper_id split_capitals_id
      js_split_def)

lemma camel_enumerate:
  "map (\<lambda>(i, part). if i = (0::nat) then g part else h part) (enumerate (Suc n) ps) = map h ps"
  by (induction ps arbitrary: n) simp_all

lemma few_shot_camel_join:
  "js_join [] (map (\<lambda>(i, part). let lower = to_lower rt part
                        in if i = 0 then lower
                           else to_upper rt (take 1 lower) @ drop 1 lower)
                 (enumerate 0 (p # ps)))
   = to_lower rt p
     @ concat (map (\<lambda>w. to_upper rt (take 1 (to_lower rt w)) @ drop 1 (to_lower rt w)) ps)"
  by (simp add: js_join_empty_sep Let_def camel_enumerate)

lemma few_shot_toCamelCase_parts:
  assumes "is_truthy v" and "js_String v = Inr s"
  shows "few_shot_toCamelCase rt v =
     (if js_trim s = [] then Inr []
      else case few_shot_parts (js_trim s) of
        [] \<Rightarrow> Inr []
      | p # ps \<Rightarrow> Inr (to_lower rt p @ concat (map (\<lambda>w. to_upper rt (take 1 (to_lower rt w))
                         @ drop 1 (to_lower rt w)) ps)))"
proof (cases "few_shot_parts (js_trim s)")
  case Nil
  with assms show ?thesis
    by (simp add: few_shot_toCamelCase_def)
next
  case (Cons p ps)
  with assms show ?thesis
    unfolding few_shot_toCamelCase_def Let_def
    by (simp add: few_shot_camel_join [unfolded Let_def] del: enumerate_simps)
qed

lemma toCamelCase_words:
  assumes "\<not> is_nullish v" and "js_String v = Inr s"
  shows "toCamelCase rt v =
     (if js_trim s = [] then Inr []
      else case js_match rt (wordRegex rt) (js_trim s) of
        None \<Rightarrow> Inr []
      | Some [] \<Rightarrow> Inr []
      | Some (p # ps) \<Rightarrow> Inr (to_lower rt p @ concat (map (\<lambda>w. to_upper rt (take 1 (to_lower rt w))
                         @ drop 1 (to_lower rt w)) ps)))"
  using assms
  by (simp add: toCamelCase_def Let_def js_join_empty_sep split: option.splits list.splits)

lemma truthy_not_nullish: "is_truthy v \<Longrightarrow> \<not> is_nullish v"
  by (cases v) simp_all

text \<open>
  Claim C6 as amended: \<^verbatim>\<open>toCamelCase\<close> of \<^verbatim>\<open>few_shot_prompt.js\<close> and \<^verbatim>\<open>toCamelCase\<close>
  of \<^verbatim>\<open>refined_prompt.js\<close> return the same (or throw the same) for \<^verbatim>\<open>null\<close>,
  \<^verbatim>\<open>undefined\<close>, the empty string and every truthy input whose trimmed string form has
  no case boundary and whose string form holds ASCII only (any string form on a runtime
  without Unicode property escapes).
\<close>

theorem toCamelCase_agree:
  assumes "is_nullish v \<or> v = JString [] \<or> is_truthy v"
    and "\<And>s. js_String v = Inr s \<Longrightarrow>
           \<not> has_case_boundary (js_trim s) \<and> (\<not> unicode_props rt \<or> list_all is_ascii s)"
  shows "few_shot_toCamelCase rt v = toCamelCase rt v"
proof -
  have blank: "js_trim [] = []"
    by (simp add: js_trim_def)
  consider "is_nullish v" | "v = JString []" | "is_truthy v"
    using assms(1) by blast
  then show ?thesis
  proof cases
    case 1
    then have "\<not> is_truthy v" by (cases v) simp_all
    with 1 show ?thesis
      by (simp add: few_shot_toCamelCase_def toCamelCase_def blank)
  next
    case 2
    then show ?thesis
      by (simp add: few_shot_toCamelCase_def toCamelCase_def blank)
  next
    case 3
    then have nn: "\<not> is_nullish v" by (rule truthy_not_nullish)
    show ?thesis
    proof (cases "js_String v")
      case (Inl e)
      with 3 nn show ?thesis
        by (simp add: few_shot_toCamelCase_def toCamelCase_def)
    next
      case (Inr s)
      with assms(2) have nb: "\<not> has_case_boundary (js_trim s)"
        and "\<not> unicode_props rt \<or> list_all is_ascii (js_trim s)"
        by (auto simp: js_trim_ascii)
      then have m: "js_match rt (wordRegex rt) (js_trim s) =
          (if match_runs is_alnum (js_trim s) = [] then None
           else Some (match_runs is_alnum (js_trim s)))"
        by (intro ascii_words)
      from nb have parts: "few_shot_parts (js_trim s) = match_runs is_alnum (js_trim s)"
        by (rule few_shot_parts_runs)
      show ?thesis
        unfolding few_shot_toCamelCase_parts [OF 3 Inr] toCamelCase_words [OF nn Inr] parts m
        by (simp split: list.splits)
    qed
  qed
qed

text \<open>
  Claim C6 says that the two \<^verbatim>\<open>toCamelCase\<close> functions return the same for every
  input. For \<^verbatim>\<open>fooBar\<close> the one of \<^verbatim>\<open>few_shot_prompt.js\<close> returns \<^verbatim>\<open>fooBar\<close> and the
  one of \<^verbatim>\<open>refined_prompt.js\<close> returns \<^verbatim>\<open>foobar\<close>. They also differ on \<^verbatim>\<open>false\<close>,
  which only the first replaces by the empty string, and under the Unicode regex on the
  letter U+0130, which only the second takes for a word.
\<close>

theorem toCamelCase_agree_counterexample:
  "few_shot_toCamelCase sample_runtime (JString (jstr ''fooBar'')) = Inr (jstr ''fooBar'')
   \<and> toCamelCase sample_runtime (JString (jstr ''fooBar'')) = Inr (jstr ''foobar'')
   \<and> jstr ''fooBar'' \<noteq> jstr ''foobar''
   \<and> few_shot_toCamelCase sample_runtime (JBoolean False) = Inr []
   \<and> toCamelCase sample_runtime (JBoolean False) = Inr (jstr ''false'')
   \<and> few_shot_toCamelCase sample_runtime (JString [0x130]) = Inr []
   \<and> toCamelCase sample_runtime (JString [0x130]) = Inr [0x69, 0x307]"
  by code_simp

text \<open>Claim C6 as amended, at the string \<^verbatim>\<open>  Foo_BAR-baz \<close>.\<close>

theorem toCamelCase_agree_witness:
  "is_truthy (JString (jstr ''  Foo_BAR-baz ''))
   \<and> \<not> has_case_boundary (js_trim (jstr ''  Foo_BAR-baz ''))
   \<and> list_all is_ascii (jstr ''  Foo_BAR-baz '')
   \<and> few_shot_toCamelCase sample_runtime (JString (jstr ''  Foo_BAR-baz ''))
       = toCamelCase sample_runtime (JString (jstr ''  Foo_BAR-baz ''))
   \<and> toCamelCase sample_runtime (JString (jstr ''  Foo_BAR-baz '')) = Inr (jstr ''fooBarBaz'')"
proof -
  have t: "is_truthy (JString (jstr ''  Foo_BAR-baz ''))"
    by code_simp
  have b: "\<not> has_case_boundary (js_trim (jstr ''  Foo_BAR-baz ''))"
    by code_simp
  have a: "list_all is_ascii (jstr ''  Foo_BAR-baz '')"
    by code_simp
  have r: "toCamelCase sample_runtime (JString (jstr ''  Foo_BAR-baz '')) = Inr (jstr ''fooBarBaz'')"
    by code_simp
  from toCamelCase_agree [of "JString (jstr ''  Foo_BAR-baz '')" sample_runtime] t b a r
  show ?thesis by simp
qed

section \<open>Where the older functions cut\<close>

lemma lower_digit_not_upper: "is_lower_digit c \<Longrightarrow> \<not> is_upper c"
  by (auto simp: is_lower_digit_def is_lower_def is_digit_def is_upper_def word_le_nat_alt)

lemma cut_capitals_not_upper: "\<not> is_upper a \<Longrightarrow> cut_capitals (a # xs) = a # cut_capitals xs"
  by (cases xs) simp_all

lemma cut_capitals_prefix:
  "\<forall>c \<in> set ls. \<not> is_upper c \<Longrightarrow> cut_capitals (ls @ r) = ls @ cut_capitals r"
  by (induction ls) (simp_all add: cut_capitals_not_upper)

lemma cut_capitals_run:
  "0 < k \<Longrightarrow> Suc k < length s \<Longrightarrow> \<forall>i \<le> k. is_upper (s ! i) \<Longrightarrow> is_lower_digit (s ! Suc k) \<Longrightarrow>
     cut_capitals s = take k s @ 0x20 # take 2 (drop k s) @ cut_capitals (drop (k + 2) s)"
proof (induction k arbitrary: s)
  case 0
  then show ?case by simp
next
  case (Suc k)
  from Suc.prems(2) obtain a b c rest where s: "s = a # b # c # rest"
    by (cases s; cases "tl s"; cases "tl (tl s)") auto
  from Suc.prems(3) have a: "is_upper a" and b: "is_upper b"
    using s by (auto dest: spec [of _ 0] spec [of _ 1])
  show ?case
  proof (cases k)
    case 0
    with Suc.prems(4) s have c: "is_lower_digit c"
      by simp
    then have "\<not> is_upper c"
      by (rule lower_digit_not_upper)
    with a b c s 0 show ?thesis
      by (simp add: cut_capitals_not_upper)
  next
    case (Suc j)
    with Suc.prems(3) s have "is_upper c"
      by (auto dest: spec [of _ 2])
    then have nc: "\<not> is_lower_digit c"
      using lower_digit_not_upper by blast
    have step: "cut_capitals s = a # cut_capitals (b # c # rest)"
      using s nc by simp
    have "cut_capitals (b # c # rest)
        = take k (b # c # rest) @ 0x20 # take 2 (drop k (b # c # rest))
          @ cut_capitals (drop (k + 2) (b # c # rest))"
    proof (rule Suc.IH)
      show "0 < k" using Suc by simp
      show "Suc k < length (b # c # rest)" using Suc.prems(2) s by simp
      show "\<forall>i \<le> k. is_upper ((b # c # rest) ! i)"
      proof (intro allI impI)
        fix i assume "i \<le> k"
        then have "is_upper (s ! Suc i)"
          using Suc.prems(3) by simp
        then show "is_upper ((b # c # rest) ! i)"
          using s by simp
      qed
      show "is_lower_digit ((b # c # rest) ! Suc k)"
        using Suc.prems(4) s by simp
    qed
    with step s show ?thesis by simp
  qed
qed

lemma match_capitals_SomeD:
  assumes "match_capitals s = Some k"
  shows "0 < k \<and> Suc k < length s \<and> (\<forall>i \<le> k. is_upper (s ! i)) \<and> is_lower_digit (s ! Suc k)"
proof -
  define n where "n = length (takeWhile is_upper s)"
  from assms have "backtrack_capitals s n = Some k"
    by (simp add: match_capitals_def n_def)
  from backtrack_capitals_Some [OF this]
  have k: "0 < k" "k \<le> n" "Suc k < length s" "is_upper (s ! k)" "is_lower_digit (s ! Suc k)"
    by simp_all
  have "k \<noteq> n"
  proof
    assume "k = n"
    with k(3) have "n < length s" by simp
    then have "\<not> is_upper (s ! n)"
      unfolding n_def by (rule nth_length_takeWhile)
    with k(4) \<open>k = n\<close> show False by simp
  qed
  with k(2) have "k < n" by simp
  have "is_upper (s ! i)" if "i \<le> k" for i
  proof -
    from that \<open>k < n\<close> have "i < length (takeWhile is_upper s)"
      by (simp add: n_def)
    then show ?thesis by (rule takeWhile_nth_holds)
  qed
  with k show ?thesis by blast
qed

lemma match_capitals_None_no_cut:
  assumes "match_capitals (c # b # d # r) = None" and "is_upper c" and "is_upper b"
  shows "\<not> is_lower_digit d"
proof
  assume d: "is_lower_digit d"
  then have "\<not> is_upper d" by (rule lower_digit_not_upper)
  with assms(2,3) d have "match_capitals (c # b # d # r) = Some 1"
    by (simp add: match_capitals_def)
  with assms(1) show False by simp
qed

lemma split_capitals_cut: "split_capitals s = cut_capitals s"
proof (induction s rule: split_capitals.induct)
  case 1
  show ?case by simp
next
  case (2 c cs)
  show ?case
  proof (cases "match_capitals (c # cs)")
    case None
    with 2 have ih: "split_capitals cs = cut_capitals cs" by simp
    have "cut_capitals (c # cs) = c # cut_capitals cs"
    proof (cases cs)
      case Nil
      then show ?thesis by simp
    next
      case (Cons b rest)
      show ?thesis
      proof (cases rest)
        case Nil
        with Cons show ?thesis by simp
      next
        case (Cons d r)
        with \<open>cs = b # rest\<close> None match_capitals_None_no_cut [of c b d r]
        show ?thesis by auto
      qed
    qed
    with None ih show ?thesis by simp
  next
    case (Some k)
    with 2 have ih: "split_capitals (drop (k + 2) (c # cs)) = cut_capitals (drop (k + 2) (c # cs))"
      by simp
    from match_capitals_SomeD [OF Some]
    have "cut_capitals (c # cs) = take k (c # cs) @ 0x20 # take 2 (drop k (c # cs))
        @ cut_capitals (drop (k + 2) (c # cs))"
      by (intro cut_capitals_run) simp_all
    with Some ih show ?thesis by simp
  qed
qed

lemma split_capitals_word_cut: "split_capitals_word s = cut_capitals s"
proof (induction s rule: split_capitals_word.induct)
  case 1
  show ?case by simp
next
  case (2 c cs)
  show ?case
  proof (cases "match_capitals (c # cs)")
    case None
    with 2 have ih: "split_capitals_word cs = cut_capitals cs" by simp
    have "cut_capitals (c # cs) = c # cut_capitals cs"
    proof (cases cs)
      case Nil
      then show ?thesis by simp
    next
      case (Cons b rest)
      show ?thesis
      proof (cases rest)
        case Nil
        with Cons show ?thesis by simp
      next
        case (Cons d r)
        with \<open>cs = b # rest\<close> None match_capitals_None_no_cut [of c b d r]
        show ?thesis by auto
      qed
    qed
    with None ih show ?thesis by simp
  next
    case (Some k)
    define s where "s = c # cs"
    define t where "t = drop (k + 2) s"
    define m' where "m' = length (takeWhile is_lower_digit t)"
    from match_capitals_SomeD [OF Some]
    have k: "0 < k" "Suc k < length s" "\<forall>i \<le> k. is_upper (s ! i)" "is_lower_digit (s ! Suc k)"
      by (simp_all add: s_def)
    have d1: "drop (Suc k) s = s ! Suc k # t"
      using k(2) by (simp add: t_def Cons_nth_drop_Suc)
    have "drop k s = s ! k # drop (Suc k) s"
      using k(2) by (simp add: Cons_nth_drop_Suc)
    with d1 have d0: "drop k s = s ! k # s ! Suc k # t"
      by simp
    have m: "length (takeWhile is_lower_digit (drop (k + 1) s)) = Suc m'"
      using k(4) d1 by (simp add: m'_def)
    have dm: "drop (k + 1 + Suc m') s = drop m' t"
      by (simp add: t_def add_ac)
    have "split_capitals_word (drop (k + 1 + length (takeWhile is_lower_digit (drop (k + 1) s))) s)
        = cut_capitals (drop (k + 1 + length (takeWhile is_lower_digit (drop (k + 1) s))) s)"
      using 2(2) [OF Some refl] by (simp only: s_def)
    then have ih: "split_capitals_word (drop m' t) = cut_capitals (drop m' t)"
      by (simp only: m dm)
    have "split_capitals_word s
        = take k s @ 0x20 # take (1 + length (takeWhile is_lower_digit (drop (k + 1) s))) (drop k s)
          @ split_capitals_word
              (drop (k + 1 + length (takeWhile is_lower_digit (drop (k + 1) s))) s)"
      by (simp only: s_def split_capitals_word.simps Some option.case Let_def)
    then have "split_capitals_word s
        = take k s @ 0x20 # take (1 + Suc m') (drop k s) @ split_capitals_word (drop m' t)"
      by (simp only: m dm)
    then have e1: "split_capitals_word s
        = take k s @ 0x20 # [s ! k, s ! Suc k] @ take m' t @ cut_capitals (drop m' t)"
      by (simp add: d0 ih)
    have e2: "take m' t @ cut_capitals (drop m' t) = cut_capitals t"
    proof -
      have tk: "take m' t = takeWhile is_lower_digit t"
        unfolding m'_def by (rule takeWhile_eq_take [symmetric])
      have dr: "drop m' t = dropWhile is_lower_digit t"
        unfolding m'_def by (rule dropWhile_eq_drop [symmetric])
      have "cut_capitals (takeWhile is_lower_digit t @ dropWhile is_lower_digit t)
          = takeWhile is_lower_digit t @ cut_capitals (dropWhile is_lower_digit t)"
        by (intro cut_capitals_prefix) (auto dest: set_takeWhileD lower_digit_not_upper)
      then show ?thesis
        by (simp add: tk dr)
    qed
    have e3: "cut_capitals s = take k s @ 0x20 # [s ! k, s ! Suc k] @ cut_capitals t"
      using cut_capitals_run [OF k] by (simp add: d0 t_def)
    from e1 e2 e3 have "split_capitals_word s = cut_capitals s"
      by simp
    then show ?thesis by (simp only: s_def)
  qed
qed

lemma split_lower_upper_Cons:
  "\<not> is_lower_digit b \<Longrightarrow> split_lower_upper (b # cs) = b # split_lower_upper cs"
  by (cases cs) simp_all

lemma split_lower_upper_hd:
  "split_lower_upper cs \<noteq> [] \<longleftrightarrow> cs \<noteq> []" "cs \<noteq> [] \<Longrightarrow> hd (split_lower_upper cs) = hd cs"
  by (induction cs rule: split_lower_upper.induct) simp_all

lemma split_lower_upper_head: "split_lower_upper (b # cs) = b # tl (split_lower_upper (b # cs))"
  by (cases cs) simp_all

lemma cut_both:
  "cut_capitals (split_lower_upper s) = cut_case_boundaries s"
proof (induction s rule: length_induct)
  case (1 s)
  show ?case
  proof (cases s)
    case Nil
    then show ?thesis by simp
  next
    case (Cons a s')
    show ?thesis
    proof (cases s')
      case Nil
      with Cons show ?thesis by simp
    next
      case (Cons b cs)
      with \<open>s = a # s'\<close> have s: "s = a # b # cs" by simp
      have ih: "cut_capitals (split_lower_upper (b # cs)) = cut_case_boundaries (b # cs)"
        using 1 s by simp
      show ?thesis
      proof (cases "is_lower_digit a \<and> is_upper b")
        case True
        then have "\<not> is_upper a" and nb: "\<not> is_lower_digit b"
          using lower_digit_not_upper by blast+
        have sp: "\<not> is_upper (0x20 :: code_unit)"
          by (simp add: is_upper_def)
        have "cut_capitals (split_lower_upper s)
            = a # 0x20 # cut_capitals (b # split_lower_upper cs)"
          using True s \<open>\<not> is_upper a\<close> sp by (simp add: cut_capitals_not_upper)
        also have "b # split_lower_upper cs = split_lower_upper (b # cs)"
          using nb by (simp add: split_lower_upper_Cons)
        finally show ?thesis
          using True s ih by simp
      next
        case False
        define z where "z = tl (split_lower_upper (b # cs))"
        have y: "split_lower_upper (b # cs) = b # z"
          unfolding z_def by (rule split_lower_upper_head)
        have same: "z \<noteq> [] \<and> is_lower_digit (hd z) \<longleftrightarrow> cs \<noteq> [] \<and> is_lower_digit (hd cs)"
          if "is_upper b"
        proof -
          from that have "\<not> is_lower_digit b"
            using lower_digit_not_upper by blast
          then have "z = split_lower_upper cs"
            by (simp add: z_def split_lower_upper_Cons)
          then show ?thesis
            using split_lower_upper_hd [of cs] by auto
        qed
        have "cut_capitals (split_lower_upper s) = cut_capitals (a # b # z)"
          using False s y by auto
        also have "\<dots> = (if is_upper a \<and> is_upper b \<and> cs \<noteq> [] \<and> is_lower_digit (hd cs)
            then a # 0x20 # cut_capitals (b # z) else a # cut_capitals (b # z))"
          using same by auto
        also have "\<dots> = cut_case_boundaries s"
          using False s ih y by auto
        finally show ?thesis .
      qed
    qed
  qed
qed

lemma few_shot_parts_cut: "few_shot_parts s = match_runs is_alnum (cut_case_boundaries s)"
  using js_split_from_runs [of is_alnum "[]" "cut_case_boundaries s"]
  by (simp add: few_shot_parts_def split_capitals_cut cut_both js_split_def)

lemma maximal_runs_trailing_gap:
  "maximal_runs P z ws \<Longrightarrow> list_all (\<lambda>x. \<not> P x) gap \<Longrightarrow> maximal_runs P (z @ gap) ws"
proof (induction rule: maximal_runs.induct)
  case (no_run g)
  then have "list_all (\<lambda>x. \<not> P x) (g @ gap)" by simp
  then show ?case by (rule maximal_runs.no_run)
next
  case (next_run g w rest ws)
  have stop: "rest @ gap = [] \<or> \<not> P (hd (rest @ gap))"
    using next_run.hyps(4) next_run.prems by (cases rest; cases gap) auto
  from next_run.IH [OF next_run.prems] have "maximal_runs P (rest @ gap) ws" .
  from maximal_runs.next_run [OF next_run.hyps(1,2,3) stop this] show ?case
    by simp
qed

lemma match_runs_trailing_gap:
  "list_all (\<lambda>x. \<not> P x) gap \<Longrightarrow> match_runs P (z @ gap) = match_runs P z"
  using maximal_runs_trailing_gap [OF match_runs_maximal, of P gap z]
  by (simp add: maximal_runs_iff)

lemma match_runs_trim:
  assumes "\<And>c. is_space c \<Longrightarrow> \<not> P c"
  shows "match_runs P (js_trim y) = match_runs P y"
proof -
  define d where "d = dropWhile is_space y"
  have "y = takeWhile is_space y @ d"
    by (simp add: d_def)
  moreover have "list_all (\<lambda>x. \<not> P x) (takeWhile is_space y)"
    using assms by (auto simp: list_all_iff dest: set_takeWhileD)
  ultimately have front_eq: "match_runs P y = match_runs P d"
    by (metis match_runs_gap)
  have "rev (takeWhile is_space (rev d) @ dropWhile is_space (rev d))
      = rev (dropWhile is_space (rev d)) @ rev (takeWhile is_space (rev d))"
    by (rule rev_append)
  then have "d = rev (dropWhile is_space (rev d)) @ rev (takeWhile is_space (rev d))"
    by (simp only: takeWhile_dropWhile_id rev_rev_ident)
  then have tail_eq: "d = js_trim y @ rev (takeWhile is_space (rev d))"
    by (simp only: js_trim_def d_def)
  have "list_all (\<lambda>x. \<not> P x) (rev (takeWhile is_space (rev d)))"
    using assms by (auto simp: list_all_iff dest: set_takeWhileD)
  then have "match_runs P (js_trim y @ rev (takeWhile is_space (rev d))) = match_runs P (js_trim y)"
    by (rule match_runs_trailing_gap)
  with tail_eq front_eq show ?thesis by simp
qed

lemma squash_separators_gap:
  assumes "gap \<noteq> []" and "list_all (\<lambda>c. \<not> is_alnum c) gap" and "ys = [] \<or> is_alnum (hd ys)"
  shows "squash_separators (gap @ ys) = 0x20 # squash_separators ys"
proof -
  from assms(1) obtain g gs where gap: "gap = g # gs" by (cases gap) auto
  with assms(2) have g: "\<not> is_alnum g" and gs: "\<forall>c \<in> set gs. \<not> is_alnum c"
    by (simp_all add: list_all_iff)
  from gs have "dropWhile (\<lambda>d. \<not> is_alnum d) (gs @ ys) = dropWhile (\<lambda>d. \<not> is_alnum d) ys"
    by simp
  also have "\<dots> = ys"
    using assms(3) by (cases ys) auto
  finally show ?thesis
    using gap g by simp
qed

lemma squash_separators_word:
  "list_all is_alnum w \<Longrightarrow> squash_separators (w @ ys) = w @ squash_separators ys"
  by (induction w) simp_all

lemma maximal_runs_squash:
  "maximal_runs is_alnum x ws \<Longrightarrow> maximal_runs is_alnum (squash_separators x) ws"
proof (induction rule: maximal_runs.induct)
  case (no_run gap)
  then have "list_all (\<lambda>c. \<not> is_alnum c) (squash_separators gap)"
    by (simp add: squash_separators_no_alnum is_alnum_def is_upper_def is_lower_def is_digit_def)
  then show ?case by (rule maximal_runs.no_run)
next
  case (next_run gap w rest ws)
  define g' :: js_string where "g' = (if gap = [] then [] else [0x20])"
  have head: "w @ rest = [] \<or> is_alnum (hd (w @ rest))"
    using next_run.hyps(2,3) by (cases w) auto
  have "squash_separators (gap @ w @ rest) = g' @ squash_separators (w @ rest)"
    using squash_separators_gap [OF _ next_run.hyps(1) head] by (simp add: g'_def)
  then have sq: "squash_separators (gap @ w @ rest) = g' @ w @ squash_separators rest"
    using next_run.hyps(3) by (simp add: squash_separators_word)
  have g: "list_all (\<lambda>c. \<not> is_alnum c) g'"
    by (simp add: g'_def is_alnum_def is_upper_def is_lower_def is_digit_def)
  have stop: "squash_separators rest = [] \<or> \<not> is_alnum (hd (squash_separators rest))"
  proof (cases rest)
    case Nil
    then show ?thesis by simp
  next
    case (Cons r rs)
    with next_run.hyps(4) have "\<not> is_alnum r" by simp
    with Cons show ?thesis
      by (simp add: is_alnum_def is_upper_def is_lower_def is_digit_def)
  qed
  from maximal_runs.next_run [OF g next_run.hyps(2,3) stop next_run.IH] sq show ?case
    by simp
qed

lemma match_runs_squash: "match_runs is_alnum (squash_separators x) = match_runs is_alnum x"
  using maximal_runs_squash [OF match_runs_maximal, of x]
  by (simp add: maximal_runs_iff)

lemma js_split_from_cong:
  "(\<And>c. c \<in> set cs \<Longrightarrow> sep c = sep' c) \<Longrightarrow>
     js_split_from sep piece cs = js_split_from sep' piece cs"
proof (induction sep piece cs rule: js_split_from.induct)
  case (1 sep piece)
  show ?case by simp
next
  case (2 sep piece c cs)
  have d: "dropWhile sep cs = dropWhile sep' cs"
    using "2.prems" by (intro dropWhile_cong) simp_all
  have c: "sep c = sep' c"
    using "2.prems" by simp
  show ?case
  proof (cases "sep c")
    case True
    have "js_split_from sep [] (dropWhile sep cs) = js_split_from sep' [] (dropWhile sep cs)"
      using "2.prems" by (intro "2.IH"(1) [OF True]) (auto dest: set_dropWhileD)
    with True c d show ?thesis by simp
  next
    case False
    have "js_split_from sep (piece @ [c]) cs = js_split_from sep' (piece @ [c]) cs"
      using "2.prems" by (intro "2.IH"(2) [OF False]) simp
    with False c show ?thesis by simp
  qed
qed

lemma space_tokens_runs:
  "filter_Boolean (js_split is_space (js_trim (squash_separators x))) = match_runs is_alnum x"
proof -
  define y where "y = js_trim (squash_separators x)"
  have chars: "is_space c = (\<not> is_alnum c)" if "c \<in> set y" for c
  proof -
    from that have "is_alnum c \<or> c = 0x20"
      using set_js_trim squash_separators_chars unfolding y_def by blast
    then show ?thesis
      using space_not_alnum [of c] by (auto simp: is_space_def)
  qed
  have "js_split_from is_space [] y = js_split_from (\<lambda>c. \<not> is_alnum c) [] y"
    using chars by (rule js_split_from_cong)
  then have "filter_Boolean (js_split is_space y) = match_runs is_alnum y"
    using js_split_from_runs [of is_alnum "[]" y] by (simp add: js_split_def)
  also have "\<dots> = match_runs is_alnum (squash_separators x)"
    unfolding y_def by (rule match_runs_trim) (rule space_not_alnum)
  also have "\<dots> = match_runs is_alnum x"
    by (rule match_runs_squash)
  finally show ?thesis by (simp add: y_def)
qed

lemma kebab_tokens_cut:
  "kebab_tokens rt s =
     match_runs is_alnum (cut_case_boundaries
       (if has_normalize rt then strip_combining (normalize_nfkd rt s) else s))"
  by (simp add: kebab_tokens_def Let_def space_tokens_runs split_capitals_word_cut cut_both)

section \<open>The tokens of every function\<close>

lemma word_runs_empty: "word_runs rt re [] = []"
  by (cases re) (simp_all add: word_runs_def code_units_def)

lemma toKebabCase_word_runs:
  assumes "\<not> is_nullish v" and "js_String v = Inr s"
  shows "toKebabCase rt v =
     Inr (js_join (jstr ''-'')
       (map (to_lower rt) (map concat (word_runs rt (wordRegex rt) (js_trim s)))))"
proof (cases "js_trim s = []")
  case True
  with assms show ?thesis
    by (simp add: toKebabCase_def word_runs_empty)
next
  case False
  with assms show ?thesis
    by (simp add: toKebabCase_def js_match_word_runs Let_def)
qed

lemma toDotCase_word_runs:
  assumes "\<not> is_nullish v" and "js_String v = Inr s"
  shows "toDotCase rt v =
     Inr (js_join (jstr ''.'')
       (map (to_lower rt) (map concat (word_runs rt (wordRegex rt) (js_trim s)))))"
proof (cases "js_trim s = []")
  case True
  with assms show ?thesis
    by (simp add: toDotCase_def word_runs_empty)
next
  case False
  with assms show ?thesis
    by (simp add: toDotCase_def js_match_word_runs Let_def)
qed

lemma toCamelCase_word_runs:
  assumes "\<not> is_nullish v" and "js_String v = Inr s"
  shows "toCamelCase rt v =
     (case map concat (word_runs rt (wordRegex rt) (js_trim s)) of
        [] \<Rightarrow> Inr []
      | w # ws \<Rightarrow> Inr (to_lower rt w @ concat (map (\<lambda>w. to_upper rt (take 1 (to_lower rt w))
                         @ drop 1 (to_lower rt w)) ws)))"
proof (cases "js_trim s = []")
  case True
  with assms show ?thesis
    by (simp add: toCamelCase_words word_runs_empty)
next
  case False
  with assms show ?thesis
    by (simp add: toCamelCase_words js_match_def split: list.splits)
qed

lemma few_shot_parts_empty: "few_shot_parts [] = []"
  by (simp add: few_shot_parts_def js_split_def filter_Boolean_def)

lemma few_shot_toCamelCase_tokens:
  assumes "is_truthy v" and "js_String v = Inr s"
  shows "few_shot_toCamelCase rt v =
     (case few_shot_parts (js_trim s) of
        [] \<Rightarrow> Inr []
      | p # ps \<Rightarrow> Inr (to_lower rt p @ concat (map (\<lambda>w. to_upper rt (take 1 (to_lower rt w))
                         @ drop 1 (to_lower rt w)) ps)))"
  using few_shot_toCamelCase_parts [OF assms, of rt]
  by (cases "js_trim s = []") (simp_all add: few_shot_parts_empty)

text \<open>
  Claim C1 as amended. For an input other than \<^verbatim>\<open>null\<close> and \<^verbatim>\<open>undefined\<close> the
  functions of \<^verbatim>\<open>refined_prompt.js\<close> cut the trimmed string form into exactly the
  maximal runs of positions that the word regex matches (code points of category L or N
  under the Unicode regex, ASCII letters and digits under the fallback), in their order:
  the positions make up the string, the runs are the only maximal runs, and each
  function is computed from them. For a truthy input \<^verbatim>\<open>toCamelCase\<close> of
  \<^verbatim>\<open>few_shot_prompt.js\<close> is computed from the maximal runs of ASCII letters and digits
  of the trimmed string form with a space put at every case boundary, and
  \<^verbatim>\<open>toKebabCas\<close> from those of the string form after NFKD, without the combining
  marks U+0300 to U+036F, with a space put at every case boundary.
\<close>

theorem words_are_maximal_runs:
  "concat (regex_positions re str) = str
   \<and> (maximal_runs (regex_class rt re) (regex_positions re str) runs
        \<longleftrightarrow> runs = word_runs rt re str)
   \<and> (maximal_runs is_alnum (cut_case_boundaries str) parts \<longleftrightarrow> parts = few_shot_parts str)
   \<and> (maximal_runs is_alnum
         (cut_case_boundaries
            (if has_normalize rt then strip_combining (normalize_nfkd rt str) else str)) tokens
        \<longleftrightarrow> tokens = kebab_tokens rt str)
   \<and> (\<not> is_nullish v \<and> js_String v = Inr s \<longrightarrow>
        toKebabCase rt v =
          Inr (js_join (jstr ''-'')
            (map (to_lower rt) (map concat (word_runs rt (wordRegex rt) (js_trim s)))))
        \<and> toDotCase rt v =
          Inr (js_join (jstr ''.'')
            (map (to_lower rt) (map concat (word_runs rt (wordRegex rt) (js_trim s)))))
        \<and> toCamelCase rt v =
          (case map concat (word_runs rt (wordRegex rt) (js_trim s)) of
             [] \<Rightarrow> Inr []
           | w # ws \<Rightarrow>
               Inr (to_lower rt w @ concat (map (\<lambda>w. to_upper rt (take 1 (to_lower rt w))
                      @ drop 1 (to_lower rt w)) ws)))
        \<and> toKebabCas rt v =
          Inr (js_join (jstr ''-'') (map (to_lower rt) (kebab_tokens rt s))))
   \<and> (is_truthy v \<and> js_String v = Inr s \<longrightarrow>
        few_shot_toCamelCase rt v =
          (case few_shot_parts (js_trim s) of
             [] \<Rightarrow> Inr []
           | p # ps \<Rightarrow>
               Inr (to_lower rt p @ concat (map (\<lambda>w. to_upper rt (take 1 (to_lower rt w))
                      @ drop 1 (to_lower rt w)) ps))))"
proof -
  have refined: "maximal_runs (regex_class rt re) (regex_positions re str) runs
        \<longleftrightarrow> runs = word_runs rt re str"
    by (simp add: maximal_runs_iff word_runs_def)
  have few: "maximal_runs is_alnum (cut_case_boundaries str) parts \<longleftrightarrow> parts = few_shot_parts str"
    by (simp add: maximal_runs_iff few_shot_parts_cut)
  have kebab: "maximal_runs is_alnum
         (cut_case_boundaries
            (if has_normalize rt then strip_combining (normalize_nfkd rt str) else str)) tokens
        \<longleftrightarrow> tokens = kebab_tokens rt str"
    by (simp only: maximal_runs_iff kebab_tokens_cut)
  have cas: "toKebabCas rt v = Inr (js_join (jstr ''-'') (map (to_lower rt) (kebab_tokens rt s)))"
    if "\<not> is_nullish v" and "js_String v = Inr s"
    using that by (simp add: toKebabCas_def)
  from refined few kebab cas show ?thesis
    using concat_regex_positions [of re str] toKebabCase_word_runs [of v s rt]
      toDotCase_word_runs [of v s rt] toCamelCase_word_runs [of v s rt]
      few_shot_toCamelCase_tokens [of v s rt]
    by blast
qed

text \<open>
  Claim C1 says that no function ever cuts a contiguous run of letters and digits.
  \<^verbatim>\<open>toCamelCase\<close> of \<^verbatim>\<open>few_shot_prompt.js\<close> and \<^verbatim>\<open>toKebabCas\<close> cut \<^verbatim>\<open>fooBar\<close>, one
  run, into \<^verbatim>\<open>foo\<close> and \<^verbatim>\<open>Bar\<close>.
\<close>

theorem words_split_at_case_counterexample:
  "few_shot_parts (jstr ''fooBar'') = [jstr ''foo'', jstr ''Bar'']
   \<and> kebab_tokens legacy_runtime (jstr ''fooBar'') = [jstr ''foo'', jstr ''Bar'']
   \<and> maximal_runs is_alnum (jstr ''fooBar'') [jstr ''fooBar'']
   \<and> \<not> maximal_runs is_alnum (jstr ''fooBar'') (few_shot_parts (jstr ''fooBar''))
   \<and> \<not> maximal_runs is_alnum (jstr ''fooBar'') (kebab_tokens legacy_runtime (jstr ''fooBar''))"
  by (simp add: maximal_runs_iff few_shot_parts_fooBar kebab_tokens_fooBar runs_fooBar)

lemma cut_XMLHttp:
  "match_runs is_alnum (cut_case_boundaries (jstr ''XMLHttp v2Go''))
     = [jstr ''XML'', jstr ''Http'', jstr ''v2'', jstr ''Go'']"
  by code_simp

lemma cut_normalized_XMLHttp:
  "match_runs is_alnum (cut_case_boundaries
     (if has_normalize sample_runtime
      then strip_combining (normalize_nfkd sample_runtime (jstr ''XMLHttp v2Go''))
      else jstr ''XMLHttp v2Go''))
     = [jstr ''XML'', jstr ''Http'', jstr ''v2'', jstr ''Go'']"
  by code_simp

lemma runs_XMLHttp:
  "word_runs sample_runtime (wordRegex sample_runtime) (js_trim (jstr ''XMLHttp v2Go''))
     = [code_units (jstr ''XMLHttp''), code_units (jstr ''v2Go'')]"
  by code_simp

text \<open>
  Claim C1 as amended, at the string \<^verbatim>\<open>XMLHttp v2Go\<close>: two words for
  \<^verbatim>\<open>refined_prompt.js\<close>, four for the older functions.
\<close>

theorem words_are_maximal_runs_witness:
  "maximal_runs (regex_class sample_runtime (wordRegex sample_runtime))
     (regex_positions (wordRegex sample_runtime) (js_trim (jstr ''XMLHttp v2Go'')))
     [code_units (jstr ''XMLHttp''), code_units (jstr ''v2Go'')]
   \<and> few_shot_parts (jstr ''XMLHttp v2Go'')
       = [jstr ''XML'', jstr ''Http'', jstr ''v2'', jstr ''Go'']
   \<and> kebab_tokens sample_runtime (jstr ''XMLHttp v2Go'')
       = [jstr ''XML'', jstr ''Http'', jstr ''v2'', jstr ''Go'']
   \<and> toKebabCase sample_runtime (JString (jstr ''XMLHttp v2Go'')) = Inr (jstr ''xmlhttp-v2go'')
   \<and> toKebabCas sample_runtime (JString (jstr ''XMLHttp v2Go'')) = Inr (jstr ''xml-http-v2-go'')
   \<and> few_shot_toCamelCase sample_runtime (JString (jstr ''XMLHttp v2Go''))
       = Inr (jstr ''xmlHttpV2Go'')"
proof -
  have r: "maximal_runs (regex_class sample_runtime (wordRegex sample_runtime))
     (regex_positions (wordRegex sample_runtime) (js_trim (jstr ''XMLHttp v2Go'')))
     [code_units (jstr ''XMLHttp''), code_units (jstr ''v2Go'')]"
    by (simp add: maximal_runs_iff runs_XMLHttp word_runs_def [symmetric])
  have p: "maximal_runs is_alnum (cut_case_boundaries (jstr ''XMLHttp v2Go''))
      [jstr ''XML'', jstr ''Http'', jstr ''v2'', jstr ''Go'']"
    by (simp add: maximal_runs_iff cut_XMLHttp)
  have t: "maximal_runs is_alnum (cut_case_boundaries
     (if has_normalize sample_runtime
      then strip_combining (normalize_nfkd sample_runtime (jstr ''XMLHttp v2Go''))
      else jstr ''XMLHttp v2Go''))
      [jstr ''XML'', jstr ''Http'', jstr ''v2'', jstr ''Go'']"
    by (simp only: maximal_runs_iff cut_normalized_XMLHttp)
  have trim: "js_trim (jstr ''XMLHttp v2Go'') = jstr ''XMLHttp v2Go''"
    by code_simp
  have k: "js_join (jstr ''-'') (map (to_lower sample_runtime)
      (map concat [code_units (jstr ''XMLHttp''), code_units (jstr ''v2Go'')])) = jstr ''xmlhttp-v2go''"
    by code_simp
  have c: "js_join (jstr ''-'') (map (to_lower sample_runtime)
      [jstr ''XML'', jstr ''Http'', jstr ''v2'', jstr ''Go'']) = jstr ''xml-http-v2-go''"
    by code_simp
  have f: "(case [jstr ''XML'', jstr ''Http'', jstr ''v2'', jstr ''Go''] of
             [] \<Rightarrow> Inr []
           | p # ps \<Rightarrow>
               Inr (to_lower sample_runtime p @ concat (map (\<lambda>w. to_upper sample_runtime
                      (take 1 (to_lower sample_runtime w))
                      @ drop 1 (to_lower sample_runtime w)) ps)))
       = (Inr (jstr ''xmlHttpV2Go'') :: js_error + js_string)"
    by code_simp
  have tr: "is_truthy (JString (jstr ''XMLHttp v2Go''))"
    by code_simp
  note inst = words_are_maximal_runs [of "wordRegex sample_runtime" "jstr ''XMLHttp v2Go''"
      sample_runtime "[code_units (jstr ''XMLHttp''), code_units (jstr ''v2Go'')]"
      "[jstr ''XML'', jstr ''Http'', jstr ''v2'', jstr ''Go'']"
      "[jstr ''XML'', jstr ''Http'', jstr ''v2'', jstr ''Go'']"
      "JString (jstr ''XMLHttp v2Go'')" "jstr ''XMLHttp v2Go''"]
  from inst r p t have
    runs: "[code_units (jstr ''XMLHttp''), code_units (jstr ''v2Go'')]
       = word_runs sample_runtime (wordRegex sample_runtime) (jstr ''XMLHttp v2Go'')"
    and parts: "[jstr ''XML'', jstr ''Http'', jstr ''v2'', jstr ''Go'']
       = few_shot_parts (jstr ''XMLHttp v2Go'')"
    and tokens: "[jstr ''XML'', jstr ''Http'', jstr ''v2'', jstr ''Go'']
       = kebab_tokens sample_runtime (jstr ''XMLHttp v2Go'')"
    by (simp_all only: trim)
  from inst tr have "toKebabCase sample_runtime (JString (jstr ''XMLHttp v2Go''))
      = Inr (js_join (jstr ''-'') (map (to_lower sample_runtime) (map concat
          (word_runs sample_runtime (wordRegex sample_runtime) (jstr ''XMLHttp v2Go'')))))"
    and "toKebabCas sample_runtime (JString (jstr ''XMLHttp v2Go''))
      = Inr (js_join (jstr ''-'') (map (to_lower sample_runtime)
          (kebab_tokens sample_runtime (jstr ''XMLHttp v2Go''))))"
    and "few_shot_toCamelCase sample_runtime (JString (jstr ''XMLHttp v2Go''))
      = (case few_shot_parts (jstr ''XMLHttp v2Go'') of
             [] \<Rightarrow> Inr []
           | p # ps \<Rightarrow>
               Inr (to_lower sample_runtime p @ concat (map (\<lambda>w. to_upper sample_runtime
                      (take 1 (to_lower sample_runtime w))
                      @ drop 1 (to_lower sample_runtime w)) ps)))"
    by (simp_all add: trim)
  with runs [symmetric] parts [symmetric] tokens [symmetric] r k c f show ?thesis
    by (simp only: simp_thms)
qed

section \<open>Joining the words: the claim\<close>

lemma kebab_tokens_lower:
  "map (to_lower rt) (kebab_tokens rt' s) = map (map ascii_lower) (kebab_tokens rt' s)"
proof (rule map_cong [OF refl])
  fix t assume "t \<in> set (kebab_tokens rt' s)"
  then have "list_all is_alnum t"
    using kebab_tokens_alnum by blast
  then have "list_all is_ascii t"
    by (auto simp: list_all_iff alnum_ascii)
  then show "to_lower rt t = map ascii_lower t"
    by (simp add: to_lower_def)
qed

text \<open>
  Claim C2 says that \<^verbatim>\<open>toKebabCase\<close> returns the words of the trimmed string,
  lower-cased and joined with \<^verbatim>\<open>-\<close>. The string \<^verbatim>\<open>fooBar\<close> is one word, which gives
  \<^verbatim>\<open>foobar\<close>; the exported \<^verbatim>\<open>toKebabCase\<close> of the kebab-case file returns
  \<^verbatim>\<open>foo-bar\<close>. And \<^verbatim>\<open>null\<close>, whose string form is the word \<^verbatim>\<open>null\<close>, gives the
  empty string.
\<close>

theorem conversions_join_words_counterexample:
  "maximal_runs is_alnum (jstr ''fooBar'') [jstr ''fooBar'']
   \<and> js_join (jstr ''-'') (map (to_lower legacy_runtime) [jstr ''fooBar'']) = jstr ''foobar''
   \<and> fst (chain_toKebabCase legacy_runtime (JString (jstr ''fooBar''))) = Inr (jstr ''foo-bar'')
   \<and> jstr ''foo-bar'' \<noteq> jstr ''foobar''
   \<and> js_String JNull = Inr (jstr ''null'')
   \<and> maximal_runs is_alnum (js_trim (jstr ''null'')) [jstr ''null'']
   \<and> toKebabCase legacy_runtime JNull = Inr []"
proof -
  have "js_join (jstr ''-'') (map (to_lower legacy_runtime) [jstr ''fooBar'']) = jstr ''foobar''"
    by code_simp
  moreover have "fst (chain_toKebabCase legacy_runtime (JString (jstr ''fooBar'')))
      = Inr (jstr ''foo-bar'')"
    by code_simp
  moreover have "jstr ''foo-bar'' \<noteq> jstr ''foobar''"
    by code_simp
  moreover have "match_runs is_alnum (js_trim (jstr ''null'')) = [jstr ''null'']"
    by code_simp
  moreover have "toKebabCase legacy_runtime JNull = Inr []"
    by (simp add: toKebabCase_def)
  ultimately show ?thesis
    by (simp add: maximal_runs_iff runs_fooBar)
qed

text \<open>
  Claim C2 as amended: for an input other than \<^verbatim>\<open>null\<close> and \<^verbatim>\<open>undefined\<close> whose
  trimmed string form has at least one word (a maximal run of the word regex), the
  functions of \<^verbatim>\<open>refined_prompt.js\<close> return: \<^verbatim>\<open>toCamelCase\<close> the first word
  lower-cased, followed without separator by every later word lower-cased with its first
  code unit upper-cased; \<^verbatim>\<open>toKebabCase\<close> and \<^verbatim>\<open>toDotCase\<close> the lower-cased words
  joined with \<^verbatim>\<open>-\<close> and with \<^verbatim>\<open>.\<close>. \<^verbatim>\<open>toKebabCas\<close>, and the exported
  \<^verbatim>\<open>toKebabCase\<close> of its file for an input that is no symbol, return joined with
  \<^verbatim>\<open>-\<close> the lower-cased tokens, which are the maximal runs of ASCII letters and
  digits of the string form after NFKD, without the combining marks U+0300 to U+036F,
  with a space put at every case boundary; lower-casing a token maps \<^verbatim>\<open>A-Z\<close> to
  \<^verbatim>\<open>a-z\<close>.
\<close>

theorem conversions_join_words:
  assumes "\<not> is_nullish v" and "js_String v = Inr s"
    and "maximal_runs (regex_class rt (wordRegex rt))
           (regex_positions (wordRegex rt) (js_trim s)) runs"
    and "runs \<noteq> []" and "words = map concat runs"
    and "maximal_runs is_alnum
           (cut_case_boundaries
              (if has_normalize rt then strip_combining (normalize_nfkd rt s) else s)) tokens"
  shows "toCamelCase rt v =
           Inr (to_lower rt (hd words)
                @ concat (map (\<lambda>w. to_upper rt (take 1 (to_lower rt w)) @ drop 1 (to_lower rt w))
                           (tl words)))
         \<and> toKebabCase rt v = Inr (js_join (jstr ''-'') (map (to_lower rt) words))
         \<and> toDotCase rt v = Inr (js_join (jstr ''.'') (map (to_lower rt) words))
         \<and> toKebabCas rt v = Inr (js_join (jstr ''-'') (map (to_lower rt) tokens))
         \<and> map (to_lower rt) tokens = map (map ascii_lower) tokens
         \<and> (\<not> is_symbol v \<longrightarrow>
              chain_toKebabCase rt v = (Inr (js_join (jstr ''-'') (map (to_lower rt) tokens)), []))"
proof -
  from assms(3) have runs: "runs = word_runs rt (wordRegex rt) (js_trim s)"
    by (simp add: maximal_runs_iff word_runs_def)
  from assms(4,5) obtain w ws where words: "words = w # ws"
    by (cases runs) auto
  from runs assms(5) have w: "map concat (word_runs rt (wordRegex rt) (js_trim s)) = words"
    by simp
  have camel: "toCamelCase rt v =
           Inr (to_lower rt (hd words)
                @ concat (map (\<lambda>w. to_upper rt (take 1 (to_lower rt w)) @ drop 1 (to_lower rt w))
                           (tl words)))"
    unfolding toCamelCase_word_runs [OF assms(1,2)] w by (simp add: words)
  have kebab: "toKebabCase rt v = Inr (js_join (jstr ''-'') (map (to_lower rt) words))"
    unfolding toKebabCase_word_runs [OF assms(1,2)] w ..
  have dot: "toDotCase rt v = Inr (js_join (jstr ''.'') (map (to_lower rt) words))"
    unfolding toDotCase_word_runs [OF assms(1,2)] w ..
  from assms(6) have tokens: "tokens = kebab_tokens rt s"
    by (simp only: maximal_runs_iff kebab_tokens_cut)
  have cas: "toKebabCas rt v = Inr (js_join (jstr ''-'') (map (to_lower rt) tokens))"
    using assms(1,2) by (simp add: toKebabCas_def tokens)
  have low: "map (to_lower rt) tokens = map (map ascii_lower) tokens"
    unfolding tokens by (rule kebab_tokens_lower)
  have chain: "chain_toKebabCase rt v
      = (Inr (js_join (jstr ''-'') (map (to_lower rt) tokens)), [])" if "\<not> is_symbol v"
    using that cas by (simp add: chain_toKebabCase_def)
  from camel kebab dot cas low chain show ?thesis by blast
qed

lemma runs_fooBar_baz:
  "word_runs sample_runtime (wordRegex sample_runtime) (js_trim (jstr '' fooBar baz''))
     = [code_units (jstr ''fooBar''), code_units (jstr ''baz'')]"
  by code_simp

lemma tokens_fooBar_baz:
  "kebab_tokens sample_runtime (jstr '' fooBar baz'') = [jstr ''foo'', jstr ''Bar'', jstr ''baz'']"
  by code_simp

text \<open>Claim C2 as amended, at the string \<^verbatim>\<open> fooBar baz\<close>.\<close>

theorem conversions_join_words_witness:
  "\<not> is_nullish (JString (jstr '' fooBar baz''))
   \<and> js_String (JString (jstr '' fooBar baz'')) = Inr (jstr '' fooBar baz'')
   \<and> maximal_runs (regex_class sample_runtime (wordRegex sample_runtime))
        (regex_positions (wordRegex sample_runtime) (js_trim (jstr '' fooBar baz'')))
        [code_units (jstr ''fooBar''), code_units (jstr ''baz'')]
   \<and> maximal_runs is_alnum
        (cut_case_boundaries
           (if has_normalize sample_runtime
            then strip_combining (normalize_nfkd sample_runtime (jstr '' fooBar baz''))
            else jstr '' fooBar baz''))
        [jstr ''foo'', jstr ''Bar'', jstr ''baz'']
   \<and> toCamelCase sample_runtime (JString (jstr '' fooBar baz'')) = Inr (jstr ''foobarBaz'')
   \<and> toKebabCase sample_runtime (JString (jstr '' fooBar baz'')) = Inr (jstr ''foobar-baz'')
   \<and> toDotCase sample_runtime (JString (jstr '' fooBar baz'')) = Inr (jstr ''foobar.baz'')
   \<and> toKebabCas sample_runtime (JString (jstr '' fooBar baz'')) = Inr (jstr ''foo-bar-baz'')
   \<and> chain_toKebabCase sample_runtime (JString (jstr '' fooBar baz''))
       = (Inr (jstr ''foo-bar-baz''), [])"
proof -
  have runs: "maximal_runs (regex_class sample_runtime (wordRegex sample_runtime))
        (regex_positions (wordRegex sample_runtime) (js_trim (jstr '' fooBar baz'')))
        [code_units (jstr ''fooBar''), code_units (jstr ''baz'')]"
    by (simp add: maximal_runs_iff runs_fooBar_baz word_runs_def [symmetric])
  have tokens: "maximal_runs is_alnum
        (cut_case_boundaries
           (if has_normalize sample_runtime
            then strip_combining (normalize_nfkd sample_runtime (jstr '' fooBar baz''))
            else jstr '' fooBar baz''))
        [jstr ''foo'', jstr ''Bar'', jstr ''baz'']"
    by (simp only: maximal_runs_iff kebab_tokens_cut [symmetric] tokens_fooBar_baz)
  have words: "map concat [code_units (jstr ''fooBar''), code_units (jstr ''baz'')]
      = [jstr ''fooBar'', jstr ''baz'']"
    by (simp add: concat_code_units)
  have camel: "to_lower sample_runtime (hd [jstr ''fooBar'', jstr ''baz''])
      @ concat (map (\<lambda>w. to_upper sample_runtime (take 1 (to_lower sample_runtime w))
                        @ drop 1 (to_lower sample_runtime w)) (tl [jstr ''fooBar'', jstr ''baz'']))
      = jstr ''foobarBaz''"
    by code_simp
  have kebab: "js_join (jstr ''-'') (map (to_lower sample_runtime) [jstr ''fooBar'', jstr ''baz''])
      = jstr ''foobar-baz''"
    by code_simp
  have dot: "js_join (jstr ''.'') (map (to_lower sample_runtime) [jstr ''fooBar'', jstr ''baz''])
      = jstr ''foobar.baz''"
    by code_simp
  have cas: "js_join (jstr ''-'') (map (to_lower sample_runtime)
      [jstr ''foo'', jstr ''Bar'', jstr ''baz'']) = jstr ''foo-bar-baz''"
    by code_simp
  have "\<not> is_nullish (JString (jstr '' fooBar baz''))"
    and "js_String (JString (jstr '' fooBar baz'')) = Inr (jstr '' fooBar baz'')"
    and "[code_units (jstr ''fooBar''), code_units (jstr ''baz'')] \<noteq> []"
    and sym: "\<not> is_symbol (JString (jstr '' fooBar baz''))"
    by simp_all
  from conversions_join_words [OF this(1,2) runs this(3) words [symmetric] tokens]
  have "toCamelCase sample_runtime (JString (jstr '' fooBar baz'')) = Inr (jstr ''foobarBaz'')
   \<and> toKebabCase sample_runtime (JString (jstr '' fooBar baz'')) = Inr (jstr ''foobar-baz'')
   \<and> toDotCase sample_runtime (JString (jstr '' fooBar baz'')) = Inr (jstr ''foobar.baz'')
   \<and> toKebabCas sample_runtime (JString (jstr '' fooBar baz'')) = Inr (jstr ''foo-bar-baz'')
   \<and> chain_toKebabCase sample_runtime (JString (jstr '' fooBar baz''))
       = (Inr (jstr ''foo-bar-baz''), [])"
    using sym by (simp only: camel kebab dot cas) blast
  with runs tokens show ?thesis
    by simp
qed

section \<open>Returning and throwing\<close>

lemma returns_unless_throws:
  "(\<And>e. r \<noteq> Inl e) \<Longrightarrow> \<exists>out. r = Inr out"
  by (cases r) auto

text \<open>
  Claim C5 as amended: every conversion function returns a string whenever the string
  coercion of its input returns one, and its result depends on the input only through
  that string and through whether the input is \<^verbatim>\<open>null\<close> or \<^verbatim>\<open>undefined\<close> (whether
  it is falsy, for \<^verbatim>\<open>few_shot_prompt.js\<close>), with one exception: the exported
  \<^verbatim>\<open>toKebabCase\<close> of the kebab-case file throws a \<^verbatim>\<open>TypeError\<close> for every symbol.
  That function rethrows a \<^verbatim>\<open>TypeError\<close> of the coercion and returns the empty
  string when the coercion throws anything else.
\<close>

theorem conversion_returns_when_coercible:
  "(js_String v = Inr s \<longrightarrow>
      (\<exists>out. toCamelCase rt v = Inr out) \<and> (\<exists>out. toKebabCase rt v = Inr out)
      \<and> (\<exists>out. toDotCase rt v = Inr out) \<and> (\<exists>out. few_shot_toCamelCase rt v = Inr out))
   \<and> (js_String v = Inr s \<and> js_String v' = Inr s \<and> is_nullish v = is_nullish v' \<longrightarrow>
        toCamelCase rt v = toCamelCase rt v' \<and> toKebabCase rt v = toKebabCase rt v'
        \<and> toDotCase rt v = toDotCase rt v' \<and> toKebabCas rt v = toKebabCas rt v')
   \<and> (js_String v = Inr s \<and> js_String v' = Inr s \<and> is_truthy v = is_truthy v' \<longrightarrow>
        few_shot_toCamelCase rt v = few_shot_toCamelCase rt v')
   \<and> (is_symbol v \<longrightarrow>
        fst (chain_toKebabCase rt v)
          = Inl (TypeError ''toKebabCase: Symbol cannot be converted to a string''))
   \<and> (\<not> is_symbol v \<and> js_String v = Inr s \<longrightarrow>
        (\<exists>out. fst (chain_toKebabCase rt v) = Inr out \<and> toKebabCas rt v = Inr out))
   \<and> (\<not> is_symbol v \<and> js_String v = Inl (TypeError m) \<longrightarrow>
        fst (chain_toKebabCase rt v) = Inl (TypeError m))
   \<and> (\<not> is_symbol v \<and> js_String v = Inl OtherError \<longrightarrow>
        fst (chain_toKebabCase rt v) = Inr [])"
proof -
  have ret: "(\<exists>out. toCamelCase rt v = Inr out) \<and> (\<exists>out. toKebabCase rt v = Inr out)
      \<and> (\<exists>out. toDotCase rt v = Inr out) \<and> (\<exists>out. few_shot_toCamelCase rt v = Inr out)"
    if "js_String v = Inr s"
    using that toCamelCase_throws [of rt v] toKebabCase_throws [of rt v] toDotCase_throws [of rt v]
      few_shot_toCamelCase_throws [of rt v]
    by (intro conjI returns_unless_throws) simp_all
  have dep: "toCamelCase rt v = toCamelCase rt v' \<and> toKebabCase rt v = toKebabCase rt v'
        \<and> toDotCase rt v = toDotCase rt v' \<and> toKebabCas rt v = toKebabCas rt v'"
    if "js_String v = Inr s" "js_String v' = Inr s" "is_nullish v = is_nullish v'"
    using that by (simp add: toCamelCase_def toKebabCase_def toDotCase_def toKebabCas_def)
  have few: "few_shot_toCamelCase rt v = few_shot_toCamelCase rt v'"
    if "js_String v = Inr s" "js_String v' = Inr s" "is_truthy v = is_truthy v'"
    using that by (simp add: few_shot_toCamelCase_def)
  have sym: "fst (chain_toKebabCase rt v)
          = Inl (TypeError ''toKebabCase: Symbol cannot be converted to a string'')"
    if "is_symbol v"
    using that by (simp add: chain_toKebabCase_def)
  have str: "\<exists>out. fst (chain_toKebabCase rt v) = Inr out \<and> toKebabCas rt v = Inr out"
    if "\<not> is_symbol v" "js_String v = Inr s"
  proof -
    from that(2) toKebabCas_throws [of rt v] have "\<exists>out. toKebabCas rt v = Inr out"
      by (intro returns_unless_throws) simp
    with that(1) show ?thesis
      by (auto simp: chain_toKebabCase_def)
  qed
  have te: "fst (chain_toKebabCase rt v) = Inl (TypeError m)"
    if "\<not> is_symbol v" "js_String v = Inl (TypeError m)"
    using that toKebabCas_throws [of rt v "TypeError m"] by (simp add: chain_toKebabCase_def)
  have oe: "fst (chain_toKebabCase rt v) = Inr []"
    if "\<not> is_symbol v" "js_String v = Inl OtherError"
    using that toKebabCas_throws [of rt v OtherError] by (simp add: chain_toKebabCase_def)
  from ret dep few sym str te oe show ?thesis by blast
qed

text \<open>
  Claim C5 says that no conversion function throws for any input. The exported
  \<^verbatim>\<open>toKebabCase\<close> of the kebab-case file throws a \<^verbatim>\<open>TypeError\<close> for a symbol, which
  \<^verbatim>\<open>String\<close> itself would turn into a string.
\<close>

theorem conversion_throws_counterexample:
  "js_String (JSymbol None) = Inr (jstr ''Symbol()'')
   \<and> fst (chain_toKebabCase sample_runtime (JSymbol None))
     = Inl (TypeError ''toKebabCase: Symbol cannot be converted to a string'')"
  by (simp add: chain_toKebabCase_def jstr_def)

text \<open>
  Claim C5 as amended, at the number 0, at a symbol, and at objects whose conversion to
  a string throws a \<^verbatim>\<open>TypeError\<close> and something else.
\<close>

theorem conversion_returns_when_coercible_witness:
  "js_String (JNumber PosZero) = Inr (jstr ''0'')
   \<and> toCamelCase sample_runtime (JNumber PosZero) = Inr (jstr ''0'')
   \<and> toKebabCase sample_runtime (JNumber PosZero) = toKebabCase sample_runtime (JString (jstr ''0''))
   \<and> few_shot_toCamelCase sample_runtime (JNumber PosZero) = Inr []
   \<and> fst (chain_toKebabCase sample_runtime (JNumber PosZero)) = Inr (jstr ''0'')
   \<and> fst (chain_toKebabCase sample_runtime (JSymbol (Some (jstr ''x''))))
       = Inl (TypeError ''toKebabCase: Symbol cannot be converted to a string'')
   \<and> fst (chain_toKebabCase sample_runtime (JObject (Inl (TypeError ''no primitive''))))
       = Inl (TypeError ''no primitive'')
   \<and> fst (chain_toKebabCase sample_runtime (JObject (Inl OtherError))) = Inr []"
proof -
  have z: "js_String (JNumber PosZero) = Inr (jstr ''0'')"
    by (simp add: number_to_string_def)
  have c: "toCamelCase sample_runtime (JNumber PosZero) = Inr (jstr ''0'')"
    by code_simp
  have f: "few_shot_toCamelCase sample_runtime (JNumber PosZero) = Inr []"
    by code_simp
  have k: "toKebabCas sample_runtime (JNumber PosZero) = Inr (jstr ''0'')"
    by code_simp
  from conversion_returns_when_coercible [of "JNumber PosZero" "jstr ''0''" sample_runtime
      "JString (jstr ''0'')" "''no primitive''"]
    conversion_returns_when_coercible [of "JSymbol (Some (jstr ''x''))" "[]" sample_runtime
      "JNull" "''no primitive''"]
    conversion_returns_when_coercible [of "JObject (Inl (TypeError ''no primitive''))" "[]"
      sample_runtime "JNull" "''no primitive''"]
    conversion_returns_when_coercible [of "JObject (Inl OtherError)" "[]"
      sample_runtime "JNull" "''no primitive''"]
    z c f k
  show ?thesis by simp
qed

end
